theory Spec2Isabelle
  imports Main "HOL-Library.Word"
begin

unbundle bit_operations_syntax

section \<open>Data model (id3v2parser.h)\<close>

type_synonym u8 = "8 word"
type_synonym u16 = "16 word"
type_synonym u32 = "32 word"

datatype ParserState =
    STATE_FIND_HEADER
  | STATE_READ_HEADER
  | STATE_READ_EXT_HEADER
  | STATE_READ_FRAME_HEADER
  | STATE_READ_FRAME_DATA
  | STATE_DONE

text \<open>
  \<^verbatim>\<open>ID3Frame\<close>. The fields \<^verbatim>\<open>id\<close>, \<^verbatim>\<open>size\<close>, \<^verbatim>\<open>flags\<close> and \<^verbatim>\<open>data\<close> carry the
  prefix \<open>frame_\<close> because \<open>id\<close> and \<open>size\<close> are constants of HOL and \<open>flags\<close> is
  also a field of the parser. \<open>frame_id\<close> is the array \<^verbatim>\<open>char id[5]\<close>; \<open>frame_data\<close> is
  the pointer \<^verbatim>\<open>uint8_t *data\<close>: \<open>None\<close> is \<^verbatim>\<open>NULL\<close>, \<open>Some a\<close> the address \<open>a\<close> of a block
  of the heap below.
\<close>

record ID3Frame =
  frame_id :: "u8 list"
  frame_size :: u32
  frame_flags :: u16
  frame_data :: "nat option"
  data_read :: u32

text \<open>
  \<^verbatim>\<open>ID3Parser\<close>. \<open>buffer\<close> is the array \<^verbatim>\<open>uint8_t buffer[10]\<close>; \<open>buf_pos\<close> is a
  \<^verbatim>\<open>size_t\<close>. \<open>frame_callback\<close> records whether the function pointer is non-null;
  what the callback observes is recorded in the field \<open>calls\<close> of the machine below.
\<close>

record ID3Parser =
  state :: ParserState
  buffer :: "u8 list"
  buf_pos :: nat
  version :: u8
  revision :: u8
  flags :: u8
  tag_size :: u32
  bytes_processed :: u32
  ext_header_size :: u32
  ext_bytes_read :: u32
  current_frame :: ID3Frame
  frame_valid :: int
  frame_callback :: bool

text \<open>
  The heap seen through \<^verbatim>\<open>malloc\<close> and \<^verbatim>\<open>free\<close>: \<open>store\<close> maps the address of every
  live block to its bytes, \<open>fresh\<close> is the next address \<^verbatim>\<open>malloc\<close> hands out, and
  \<open>faults\<close> counts the accesses C leaves undefined: \<^verbatim>\<open>free\<close> of an address that is not
  live (a double free) and a write through \<^verbatim>\<open>NULL\<close> or through a dangling pointer.
  The bytes of a fresh block are unspecified in C; the model fills them with zero.
\<close>

record heap =
  store :: "nat \<Rightarrow> u8 list option"
  fresh :: nat
  faults :: nat

text \<open>One invocation of the frame callback: the id array, the bytes of the payload
  buffer at the moment of the call, and the size argument.\<close>

record frame_call =
  call_id :: "u8 list"
  call_data :: "u8 list"
  call_size :: u32

record machine =
  parser :: ID3Parser
  mem :: heap
  calls :: "frame_call list"

subsection \<open>malloc and free\<close>

text \<open>\<open>fits n\<close> says whether \<^verbatim>\<open>malloc(n)\<close> succeeds; \<^verbatim>\<open>malloc(0)\<close> may return \<^verbatim>\<open>NULL\<close>
  in C, which is \<open>\<not> fits 0\<close>.\<close>

definition malloc :: "(nat \<Rightarrow> bool) \<Rightarrow> heap \<Rightarrow> nat \<Rightarrow> nat option \<times> heap" where
  "malloc fits h n =
     (if fits n
      then (Some (fresh h),
            h\<lparr>store := (store h)(fresh h \<mapsto> replicate n 0), fresh := Suc (fresh h)\<rparr>)
      else (None, h))"

definition free :: "heap \<Rightarrow> nat option \<Rightarrow> heap" where
  "free h p =
     (case p of
        None \<Rightarrow> h
      | Some a \<Rightarrow>
          (case store h a of
             None \<Rightarrow> h\<lparr>faults := Suc (faults h)\<rparr>
           | Some bs \<Rightarrow> h\<lparr>store := (store h)(a := None)\<rparr>))"

text \<open>\<^verbatim>\<open>p[k] = b\<close> for a heap pointer \<open>p\<close>.\<close>

definition poke :: "heap \<Rightarrow> nat option \<Rightarrow> nat \<Rightarrow> u8 \<Rightarrow> heap" where
  "poke h p k b =
     (case p of
        None \<Rightarrow> h\<lparr>faults := Suc (faults h)\<rparr>
      | Some a \<Rightarrow>
          (case store h a of
             None \<Rightarrow> h\<lparr>faults := Suc (faults h)\<rparr>
           | Some bs \<Rightarrow>
               if k < length bs then h\<lparr>store := (store h)(a \<mapsto> bs[k := b])\<rparr>
               else h\<lparr>faults := Suc (faults h)\<rparr>))"

text \<open>The bytes a reader finds behind a pointer.\<close>

definition peek :: "heap \<Rightarrow> nat option \<Rightarrow> u8 list" where
  "peek h p =
     (case p of
        None \<Rightarrow> []
      | Some a \<Rightarrow> (case store h a of None \<Rightarrow> [] | Some bs \<Rightarrow> bs))"

section \<open>Integer codec (id3v2parser.c, lines 3-18)\<close>

definition synchsafe_to_uint32 :: "u8 list \<Rightarrow> u32" where
  "synchsafe_to_uint32 buf =
     push_bit 21 (ucast (buf ! 0)) OR
     push_bit 14 (ucast (buf ! 1)) OR
     push_bit 7 (ucast (buf ! 2)) OR
     ucast (buf ! 3)"

definition bytes_to_uint32 :: "u8 list \<Rightarrow> u32" where
  "bytes_to_uint32 buf =
     push_bit 24 (ucast (buf ! 0)) OR
     push_bit 16 (ucast (buf ! 1)) OR
     push_bit 8 (ucast (buf ! 2)) OR
     ucast (buf ! 3)"

section \<open>Initialisation and cleanup (lines 20-34)\<close>

definition zero_frame :: ID3Frame where
  "zero_frame =
     \<lparr>frame_id = replicate 5 0, frame_size = 0, frame_flags = 0,
      frame_data = None, data_read = 0\<rparr>"

text \<open>\<^verbatim>\<open>memset(parser, 0, sizeof(ID3Parser))\<close>, then the two assignments.\<close>

definition id3_parser_init :: "bool \<Rightarrow> ID3Parser" where
  "id3_parser_init callback =
     \<lparr>state = STATE_FIND_HEADER, buffer = replicate 10 0, buf_pos = 0,
      version = 0, revision = 0, flags = 0, tag_size = 0, bytes_processed = 0,
      ext_header_size = 0, ext_bytes_read = 0, current_frame = zero_frame,
      frame_valid = 0, frame_callback = callback\<rparr>"

definition id3_parser_cleanup :: "machine \<Rightarrow> machine" where
  "id3_parser_cleanup m =
     (if frame_data (current_frame (parser m)) \<noteq> None
      then m\<lparr>mem := free (mem m) (frame_data (current_frame (parser m))),
             parser := (parser m)\<lparr>current_frame :=
               (current_frame (parser m))\<lparr>frame_data := None\<rparr>\<rparr>\<rparr>
      else m)"

text \<open>A parser that has just been initialised, on a heap with no block.\<close>

definition empty_heap :: heap where
  "empty_heap = \<lparr>store = (\<lambda>a. None), fresh = 1, faults = 0\<rparr>"

definition start :: "bool \<Rightarrow> machine" where
  "start callback = \<lparr>parser = id3_parser_init callback, mem = empty_heap, calls = []\<rparr>"

section \<open>The inner loops of id3\_parser\_feed\<close>

text \<open>
  The cursor \<^verbatim>\<open>(data, i, len)\<close> of \<^verbatim>\<open>id3_parser_feed\<close> is the list of the bytes not yet
  read, \<^verbatim>\<open>data[i..len)\<close>: \<^verbatim>\<open>i < len\<close> is a non-empty list, \<^verbatim>\<open>data[i++]\<close> takes its head.
\<close>

text \<open>Lines 59-61.\<close>

fun read_header_loop :: "ID3Parser \<Rightarrow> u8 list \<Rightarrow> ID3Parser \<times> u8 list" where
  "read_header_loop p [] = (p, [])"
| "read_header_loop p (b # bs) =
     (if buf_pos p < 10
      then read_header_loop
             (p\<lparr>buffer := (buffer p)[buf_pos p := b], buf_pos := Suc (buf_pos p)\<rparr>) bs
      else (p, b # bs))"

text \<open>Lines 84-88.\<close>

fun ext_size_loop :: "ID3Parser \<Rightarrow> u8 list \<Rightarrow> ID3Parser \<times> u8 list" where
  "ext_size_loop p [] = (p, [])"
| "ext_size_loop p (b # bs) =
     (if buf_pos p < 4 \<and> bytes_processed p < tag_size p
      then ext_size_loop
             (p\<lparr>buffer := (buffer p)[buf_pos p := b], buf_pos := Suc (buf_pos p),
                bytes_processed := bytes_processed p + 1\<rparr>) bs
      else (p, b # bs))"

text \<open>Lines 100-105.\<close>

fun ext_skip_loop :: "ID3Parser \<Rightarrow> u8 list \<Rightarrow> ID3Parser \<times> u8 list" where
  "ext_skip_loop p [] = (p, [])"
| "ext_skip_loop p (b # bs) =
     (if ext_bytes_read p < ext_header_size p \<and> bytes_processed p < tag_size p
      then ext_skip_loop
             (p\<lparr>ext_bytes_read := ext_bytes_read p + 1,
                bytes_processed := bytes_processed p + 1\<rparr>) bs
      else (p, b # bs))"

text \<open>Lines 123-127.\<close>

fun frame_header_loop :: "nat \<Rightarrow> ID3Parser \<Rightarrow> u8 list \<Rightarrow> ID3Parser \<times> u8 list" where
  "frame_header_loop header_size p [] = (p, [])"
| "frame_header_loop header_size p (b # bs) =
     (if buf_pos p < header_size \<and> bytes_processed p < tag_size p
      then frame_header_loop header_size
             (p\<lparr>buffer := (buffer p)[buf_pos p := b], buf_pos := Suc (buf_pos p),
                bytes_processed := bytes_processed p + 1\<rparr>) bs
      else (p, b # bs))"

text \<open>Lines 170-174; the loop writes into the payload buffer on the heap.\<close>

fun frame_data_loop :: "ID3Parser \<Rightarrow> heap \<Rightarrow> u8 list \<Rightarrow> ID3Parser \<times> heap \<times> u8 list" where
  "frame_data_loop p h [] = (p, h, [])"
| "frame_data_loop p h (b # bs) =
     (if data_read (current_frame p) < frame_size (current_frame p)
         \<and> bytes_processed p < tag_size p
      then frame_data_loop
             (p\<lparr>current_frame := (current_frame p)
                    \<lparr>data_read := data_read (current_frame p) + 1\<rparr>,
                bytes_processed := bytes_processed p + 1\<rparr>)
             (poke h (frame_data (current_frame p)) (unat (data_read (current_frame p))) b)
             bs
      else (p, h, b # bs))"

section \<open>The cases of the switch\<close>

text \<open>What one pass through the body of the outer loop does: it either reaches the
  \<^verbatim>\<open>break\<close> of its case, with the machine and the cursor it leaves, or returns from
  \<^verbatim>\<open>id3_parser_feed\<close> with a status.\<close>

datatype outcome = Break machine "u8 list" | Return int machine

text \<open>Lines 42-55.\<close>

definition find_header :: "machine \<Rightarrow> u8 list \<Rightarrow> outcome" where
  "find_header m rest =
     (let p = parser m in
      if hd rest = 0x49 \<and> 2 < length rest \<and> rest ! 1 = 0x44 \<and> rest ! 2 = 0x33
      then Break (m\<lparr>parser := p\<lparr>buffer := (buffer p)[0 := rest ! 0, 1 := rest ! 1, 2 := rest ! 2],
                                 buf_pos := 3, state := STATE_READ_HEADER\<rparr>\<rparr>)
                 (drop 3 rest)
      else Break m (tl rest))"

text \<open>Lines 57-80.\<close>

definition read_header :: "machine \<Rightarrow> u8 list \<Rightarrow> outcome" where
  "read_header m rest =
     (let (p, rest') = read_header_loop (parser m) rest in
      if buf_pos p = 10
      then
        (let p = p\<lparr>version := buffer p ! 3, revision := buffer p ! 4, flags := buffer p ! 5,
                   tag_size := synchsafe_to_uint32 (drop 6 (buffer p)),
                   bytes_processed := 0\<rparr> in
         if flags p AND 0x40 \<noteq> 0 \<and> 3 \<le> version p
         then Break (m\<lparr>parser := p\<lparr>state := STATE_READ_EXT_HEADER, buf_pos := 0,
                                    ext_bytes_read := 0\<rparr>\<rparr>) rest'
         else Break (m\<lparr>parser := p\<lparr>state := STATE_READ_FRAME_HEADER, buf_pos := 0\<rparr>\<rparr>) rest')
      else Break (m\<lparr>parser := p\<rparr>) rest')"

text \<open>Lines 82-111.\<close>

definition read_ext_header :: "machine \<Rightarrow> u8 list \<Rightarrow> outcome" where
  "read_ext_header m rest =
     (let (p, rest1) = ext_size_loop (parser m) rest;
          p = (if buf_pos p = 4
               then p\<lparr>ext_header_size :=
                        (if version p = 4 then synchsafe_to_uint32 (buffer p)
                         else bytes_to_uint32 (buffer p)),
                      ext_bytes_read := 4\<rparr>
               else p);
          (p, rest2) = ext_skip_loop p rest1
      in if ext_header_size p \<le> ext_bytes_read p
         then Break (m\<lparr>parser := p\<lparr>state := STATE_READ_FRAME_HEADER, buf_pos := 0\<rparr>\<rparr>) rest2
         else Break (m\<lparr>parser := p\<rparr>) rest2)"

text \<open>Lines 136-155: the decoding of a complete frame header.\<close>

definition parse_frame_header :: "ID3Parser \<Rightarrow> ID3Parser" where
  "parse_frame_header p =
     (let f = current_frame p; buf = buffer p in
      if 3 \<le> version p
      then p\<lparr>current_frame := f
               \<lparr>frame_id := (take 4 buf @ drop 4 (frame_id f))[4 := 0],
                frame_size := (if version p = 4 then synchsafe_to_uint32 (drop 4 buf)
                               else bytes_to_uint32 (drop 4 buf)),
                frame_flags := push_bit 8 (ucast (buf ! 8)) OR ucast (buf ! 9)\<rparr>\<rparr>
      else p\<lparr>current_frame := f
               \<lparr>frame_id := (take 3 buf @ drop 3 (frame_id f))[3 := 0],
                frame_size := push_bit 16 (ucast (buf ! 3)) OR push_bit 8 (ucast (buf ! 4))
                              OR ucast (buf ! 5),
                frame_flags := 0\<rparr>\<rparr>)"

text \<open>Line 121.\<close>

definition frame_header_size :: "ID3Parser \<Rightarrow> nat" where
  "frame_header_size p = (if 3 \<le> version p then 10 else 6)"

text \<open>Lines 113-166.\<close>

definition read_frame_header :: "(nat \<Rightarrow> bool) \<Rightarrow> machine \<Rightarrow> u8 list \<Rightarrow> outcome" where
  "read_frame_header fits m rest =
     (if tag_size (parser m) \<le> bytes_processed (parser m)
      then Break (m\<lparr>parser := (parser m)\<lparr>state := STATE_DONE\<rparr>\<rparr>) rest
      else
        (let header_size = frame_header_size (parser m);
             (p, rest') = frame_header_loop header_size (parser m) rest
         in if buf_pos p = header_size
            then
              (if buffer p ! 0 = 0
               then Break (m\<lparr>parser := p\<lparr>state := STATE_DONE\<rparr>\<rparr>) rest'
               else
                 (let p = parse_frame_header p;
                      (a, h) = malloc fits (mem m) (unat (frame_size (current_frame p)));
                      p = p\<lparr>current_frame := (current_frame p)\<lparr>frame_data := a\<rparr>\<rparr>
                  in if a = None
                     then Return (- 1) (m\<lparr>parser := p, mem := h\<rparr>)
                     else Break (m\<lparr>parser := p\<lparr>current_frame :=
                                                 (current_frame p)\<lparr>data_read := 0\<rparr>,
                                               frame_valid := 1,
                                               state := STATE_READ_FRAME_DATA\<rparr>,
                                   mem := h\<rparr>) rest'))
            else Break (m\<lparr>parser := p\<rparr>) rest'))"

text \<open>Lines 168-194.\<close>

definition read_frame_data :: "machine \<Rightarrow> u8 list \<Rightarrow> outcome" where
  "read_frame_data m rest =
     (let (p, h, rest') = frame_data_loop (parser m) (mem m) rest;
          f = current_frame p
      in if frame_size f \<le> data_read f
         then Break (m\<lparr>calls := (if frame_callback p
                                  then calls m @ [\<lparr>call_id = frame_id f,
                                                   call_data = peek h (frame_data f),
                                                   call_size = frame_size f\<rparr>]
                                  else calls m),
                       mem := free h (frame_data f),
                       parser := p\<lparr>current_frame := f\<lparr>frame_data := None\<rparr>,
                                   frame_valid := 0, buf_pos := 0,
                                   state := STATE_READ_FRAME_HEADER\<rparr>\<rparr>) rest'
         else Break (m\<lparr>parser := p, mem := h\<rparr>) rest')"

text \<open>The switch of lines 41-198.\<close>

definition switch :: "(nat \<Rightarrow> bool) \<Rightarrow> machine \<Rightarrow> u8 list \<Rightarrow> outcome" where
  "switch fits m rest =
     (case state (parser m) of
        STATE_FIND_HEADER \<Rightarrow> find_header m rest
      | STATE_READ_HEADER \<Rightarrow> read_header m rest
      | STATE_READ_EXT_HEADER \<Rightarrow> read_ext_header m rest
      | STATE_READ_FRAME_HEADER \<Rightarrow> read_frame_header fits m rest
      | STATE_READ_FRAME_DATA \<Rightarrow> read_frame_data m rest
      | STATE_DONE \<Rightarrow> Return 1 m)"

section \<open>id3\_parser\_feed (lines 37-202)\<close>

text \<open>The outer loop may run forever; \<open>None\<close> is a call that does not return.\<close>

partial_function (option) feed_loop ::
  "(nat \<Rightarrow> bool) \<Rightarrow> machine \<Rightarrow> u8 list \<Rightarrow> (int \<times> machine) option" where
  "feed_loop fits m rest =
     (if rest \<noteq> [] \<and> state (parser m) \<noteq> STATE_DONE
      then (case switch fits m rest of
              Break m' rest' \<Rightarrow> feed_loop fits m' rest'
            | Return r m' \<Rightarrow> Some (r, m'))
      else Some (0, m))"

declare feed_loop.simps [code]

definition id3_parser_feed ::
  "(nat \<Rightarrow> bool) \<Rightarrow> machine \<Rightarrow> u8 list \<Rightarrow> (int \<times> machine) option" where
  "id3_parser_feed fits m data = feed_loop fits m data"

section \<open>Callers and inputs of the testable properties\<close>

text \<open>The caller that delivers a byte sequence one byte per call of
  \<^verbatim>\<open>id3_parser_feed\<close>; \<open>r\<close> is the status of the call before, and the result is the
  status of the last call with the machine it leaves. A call that does not return
  ends the run.\<close>

fun feed_bytewise ::
  "(nat \<Rightarrow> bool) \<Rightarrow> int \<Rightarrow> machine \<Rightarrow> u8 list \<Rightarrow> (int \<times> machine) option" where
  "feed_bytewise fits r m [] = Some (r, m)"
| "feed_bytewise fits r m (b # bs) =
     (case id3_parser_feed fits m [b] of
        None \<Rightarrow> None
      | Some (r', m') \<Rightarrow> feed_bytewise fits r' m' bs)"

text \<open>The caller that delivers a sequence of chunks, one call each, whatever status
  the calls return.\<close>

fun feed_chunks :: "(nat \<Rightarrow> bool) \<Rightarrow> machine \<Rightarrow> u8 list list \<Rightarrow> machine option" where
  "feed_chunks fits m [] = Some m"
| "feed_chunks fits m (c # cs) =
     (case id3_parser_feed fits m c of
        None \<Rightarrow> None
      | Some (r, m') \<Rightarrow> feed_chunks fits m' cs)"

text \<open>The signature \<^verbatim>\<open>"ID3"\<close>.\<close>

definition signature :: "u8 list" where
  "signature = [0x49, 0x44, 0x33]"

text \<open>The example of the specification: a v2.3 tag of size 17 with one frame
  \<^verbatim>\<open>TIT2\<close> carrying \<^verbatim>\<open>"abcd"\<close>, and nine bytes of padding.\<close>

definition tit2_tag :: "u8 list" where
  "tit2_tag =
     signature @ [3, 0, 0] @ [0, 0, 0, 17] @
     [0x54, 0x49, 0x54, 0x32] @ [0, 0, 0, 4] @ [0, 0] @
     [0x61, 0x62, 0x63, 0x64] @
     [0, 0, 0, 0, 0, 0, 0, 0, 0]"

definition tit2_call :: frame_call where
  "tit2_call =
     \<lparr>call_id = [0x54, 0x49, 0x54, 0x32, 0], call_data = [0x61, 0x62, 0x63, 0x64],
      call_size = 4\<rparr>"

text \<open>The machine a call leaves when it returns.\<close>

definition after :: "(nat \<Rightarrow> bool) \<Rightarrow> machine \<Rightarrow> u8 list \<Rightarrow> machine" where
  "after fits m data = (case id3_parser_feed fits m data of None \<Rightarrow> m | Some (r, m') \<Rightarrow> m')"

text \<open>A v2.3 tag of size 12 whose only frame declares 5 bytes of payload: after the
  10 bytes of the frame header the tag has room for 2 of them.\<close>

definition oversize_tag :: "u8 list" where
  "oversize_tag =
     signature @ [3, 0, 0] @ [0, 0, 0, 12] @
     [0x54, 0x49, 0x54, 0x32] @ [0, 0, 0, 5] @ [0, 0]"

text \<open>The header of a v2.3 tag of size 17 with no extended header.\<close>

definition v23_header :: "u8 list" where
  "v23_header = signature @ [3, 0, 0] @ [0, 0, 0, 17]"

text \<open>The headers of a v2.2 tag of size 40 and of a v2.4 tag of size 256, and a v2.3 tag
  that ends with the header of a frame \<^verbatim>\<open>TIT2\<close> of size 0.\<close>

definition v22_header :: "u8 list" where
  "v22_header = signature @ [2, 0, 0] @ [0, 0, 0, 40]"

definition v24_header :: "u8 list" where
  "v24_header = signature @ [4, 0, 0] @ [0, 0, 2, 0]"

definition zero_size_tag :: "u8 list" where
  "zero_size_tag =
     signature @ [3, 0, 0] @ [0, 0, 0, 20] @
     [0x54, 0x49, 0x54, 0x32] @ [0, 0, 0, 0] @ [0, 0]"

text \<open>A v2.4 tag of size 30 whose flags announce an extended header, and the same tag
  with an extended-header size field of 6 and the two bytes after it.\<close>

definition v24_ext_header :: "u8 list" where
  "v24_ext_header = signature @ [4, 0, 0x40] @ [0, 0, 0, 30]"

definition ext_tag :: "u8 list" where
  "ext_tag = signature @ [4, 0, 0x40] @ [0, 0, 0, 30] @ [0, 0, 0, 6] @ [1, 2]"

section \<open>Quantities of the proofs\<close>

text \<open>The bytes of the tag not yet counted in \<^verbatim>\<open>bytes_processed\<close>, and the bytes the
  frame in flight still waits for.\<close>

definition budget :: "ID3Parser \<Rightarrow> nat" where
  "budget p = unat (tag_size p) - unat (bytes_processed p)"

definition wanted :: "ID3Parser \<Rightarrow> nat" where
  "wanted p = unat (frame_size (current_frame p)) - unat (data_read (current_frame p))"

text \<open>The effect of \<open>n\<close> rounds of the loop of lines 170-174 on the parser and on the
  heap.\<close>

definition advance_data :: "nat \<Rightarrow> ID3Parser \<Rightarrow> ID3Parser" where
  "advance_data n p =
     p\<lparr>current_frame := (current_frame p)
          \<lparr>data_read := data_read (current_frame p) + of_nat n\<rparr>,
       bytes_processed := bytes_processed p + of_nat n\<rparr>"

fun poke_bytes :: "heap \<Rightarrow> nat option \<Rightarrow> nat \<Rightarrow> u8 list \<Rightarrow> heap" where
  "poke_bytes h p k [] = h"
| "poke_bytes h p k (b # bs) = poke_bytes (poke h p k b) p (Suc k) bs"

text \<open>The effect of the loop of lines 123-127 (and of lines 84-88) on the buffer and on
  the parser when it reads the bytes \<open>xs\<close>.\<close>

fun store_bytes :: "u8 list \<Rightarrow> nat \<Rightarrow> u8 list \<Rightarrow> u8 list" where
  "store_bytes buf k [] = buf"
| "store_bytes buf k (b # bs) = store_bytes (buf[k := b]) (Suc k) bs"

definition advance_header :: "u8 list \<Rightarrow> ID3Parser \<Rightarrow> ID3Parser" where
  "advance_header xs p =
     p\<lparr>buffer := store_bytes (buffer p) (buf_pos p) xs,
       buf_pos := buf_pos p + length xs,
       bytes_processed := bytes_processed p + of_nat (length xs)\<rparr>"

text \<open>The machine that lines 136-164 leave when the header completed by the bytes \<open>hdr\<close>
  is not padding, and the machine that lines 178-192 leave when a frame is complete.\<close>

definition begin_frame :: "(nat \<Rightarrow> bool) \<Rightarrow> machine \<Rightarrow> u8 list \<Rightarrow> machine" where
  "begin_frame fits m hdr =
     (let q = parse_frame_header (advance_header hdr (parser m));
          (a, h) = malloc fits (mem m) (unat (frame_size (current_frame q)))
      in m\<lparr>parser := q\<lparr>current_frame := (current_frame q)\<lparr>frame_data := a, data_read := 0\<rparr>,
                        frame_valid := 1, state := STATE_READ_FRAME_DATA\<rparr>,
            mem := h\<rparr>)"

definition end_frame :: "machine \<Rightarrow> machine" where
  "end_frame m =
     (let p = parser m; f = current_frame p in
      m\<lparr>calls := (if frame_callback p
                   then calls m @ [\<lparr>call_id = frame_id f, call_data = peek (mem m) (frame_data f),
                                    call_size = frame_size f\<rparr>]
                   else calls m),
        mem := free (mem m) (frame_data f),
        parser := p\<lparr>current_frame := f\<lparr>frame_data := None\<rparr>,
                    frame_valid := 0, buf_pos := 0,
                    state := STATE_READ_FRAME_HEADER\<rparr>\<rparr>)"

text \<open>The effect of \<open>n\<close> rounds of the loop of lines 100-105.\<close>

definition advance_skip :: "nat \<Rightarrow> ID3Parser \<Rightarrow> ID3Parser" where
  "advance_skip n p =
     p\<lparr>ext_bytes_read := ext_bytes_read p + of_nat n,
       bytes_processed := bytes_processed p + of_nat n\<rparr>"

text \<open>The invariant of the heap: no access has been undefined, and the only live block
  is the payload buffer of the frame in flight, of the size the frame declares; there is
  such a frame exactly in \<^verbatim>\<open>STATE_READ_FRAME_DATA\<close>.\<close>

definition heap_ok :: "machine \<Rightarrow> bool" where
  "heap_ok m \<longleftrightarrow>
     faults (mem m) = 0 \<and>
     (case frame_data (current_frame (parser m)) of
        None \<Rightarrow> state (parser m) \<noteq> STATE_READ_FRAME_DATA \<and> (\<forall>x. store (mem m) x = None)
      | Some a \<Rightarrow>
          state (parser m) = STATE_READ_FRAME_DATA \<and>
          (\<exists>bs. store (mem m) a = Some bs
              \<and> length bs = unat (frame_size (current_frame (parser m)))) \<and>
          (\<forall>x. x \<noteq> a \<longrightarrow> store (mem m) x = None))"

fun machine_of :: "outcome \<Rightarrow> machine" where
  "machine_of (Break m rest) = m"
| "machine_of (Return r m) = m"

text \<open>The states from which the parser reads frames, and a rank that falls along the
  passes of the outer loop that read no byte.\<close>

definition framed :: "machine \<Rightarrow> bool" where
  "framed m \<longleftrightarrow> state (parser m) \<in> {STATE_READ_FRAME_HEADER, STATE_READ_FRAME_DATA, STATE_DONE}"

definition rank :: "machine \<Rightarrow> nat" where
  "rank m =
     (case state (parser m) of
        STATE_READ_FRAME_HEADER \<Rightarrow>
          if buf_pos (parser m) = frame_header_size (parser m) then 3 else 1
      | STATE_READ_FRAME_DATA \<Rightarrow> 2
      | _ \<Rightarrow> 0)"

text \<open>The bound on \<^verbatim>\<open>bytes_processed\<close>.\<close>

definition within_budget :: "machine \<Rightarrow> bool" where
  "within_budget m \<longleftrightarrow> bytes_processed (parser m) \<le> tag_size (parser m)"

section \<open>Properties\<close>

subsection \<open>The example tag in one chunk\<close>

lemma tit2_tag_run:
  "map_option (\<lambda>(r, m). (r, state (parser m), calls m))
     (id3_parser_feed (\<lambda>_. True) (start True) tit2_tag)
   = Some (0, STATE_DONE, [tit2_call])"
  by code_simp

text \<open>
  C2. Fed as one chunk of 33 bytes to a fresh parser, the example tag invokes the
  callback once, with id \<^verbatim>\<open>TIT2\<close>, data \<^verbatim>\<open>abcd\<close> and size 4, and leaves the parser in
  \<^verbatim>\<open>STATE_DONE\<close>; but the call returns 0, not 1: the loop of line 40 ends as soon as the
  state is \<^verbatim>\<open>STATE_DONE\<close>, and the \<^verbatim>\<open>return 1\<close> of line 197 is never reached.
\<close>

theorem example_tag_returns_zero:
  "\<exists>m. id3_parser_feed (\<lambda>_. True) (start True) tit2_tag = Some (0, m)
       \<and> state (parser m) = STATE_DONE \<and> calls m = [tit2_call]"
  using tit2_tag_run by (auto split: prod.splits)

subsection \<open>Feeding a parser that is done\<close>

text \<open>
  C3. In \<^verbatim>\<open>STATE_DONE\<close> every call of \<^verbatim>\<open>id3_parser_feed\<close>, for every chunk, returns
  at once and leaves the machine as it was; the status it returns is 0, not 1.
\<close>

theorem feed_done_returns_zero:
  "state (parser m) = STATE_DONE \<Longrightarrow> id3_parser_feed fits m data = Some (0, m)"
  by (simp add: id3_parser_feed_def feed_loop.simps)

theorem feed_done_returns_zero_witness:
  "id3_parser_feed (\<lambda>_. True)
     ((start True)\<lparr>parser := (id3_parser_init True)\<lparr>state := STATE_DONE\<rparr>\<rparr>) [1, 2, 3]
   = Some (0, (start True)\<lparr>parser := (id3_parser_init True)\<lparr>state := STATE_DONE\<rparr>\<rparr>)"
  using feed_done_returns_zero
    [of "(start True)\<lparr>parser := (id3_parser_init True)\<lparr>state := STATE_DONE\<rparr>\<rparr>"
        "\<lambda>_. True" "[1, 2, 3]"]
  by simp

subsection \<open>Words\<close>

lemma word_inc_unat: "(x :: 'a::len word) < y \<Longrightarrow> unat (x + 1) = Suc (unat x)"
proof -
  assume "x < y"
  then have a: "unat x < unat y" by (simp add: word_less_nat_alt)
  have b: "unat y < 2 ^ LENGTH('a)" by (rule unsigned_less)
  from a b have "Suc (unat x) < 2 ^ LENGTH('a)" by linarith
  then have "unat x + unat (1::'a word) < 2 ^ LENGTH('a)" by simp
  then show ?thesis by (simp add: unat_add_lem[THEN iffD1])
qed

lemma word_add_of_nat_unat:
  "n \<le> unat (y :: 'a::len word) - unat (x :: 'a word) \<Longrightarrow> unat (x + of_nat n) = unat x + n"
proof (cases "n = 0")
  case True
  then show ?thesis by simp
next
  case False
  assume "n \<le> unat y - unat x"
  with False have le: "unat x + n \<le> unat y" by linarith
  have b: "unat y < 2 ^ LENGTH('a)" by (rule unsigned_less)
  from le b have n: "n < 2 ^ LENGTH('a)" by linarith
  then have "unat (of_nat n :: 'a word) = n" by (simp add: unat_of_nat)
  moreover from le b have "unat x + n < 2 ^ LENGTH('a)" by linarith
  ultimately show ?thesis by (simp add: unat_add_lem[THEN iffD1])
qed

subsection \<open>The values the integer codec computes\<close>

lemma unat_shifted_byte:
  "n + 8 \<le> LENGTH('a) \<Longrightarrow>
   unat (push_bit n (ucast (a :: u8)) :: 'a::len word) = unat a * 2 ^ n"
proof -
  assume n: "n + 8 \<le> LENGTH('a)"
  have a: "unat a < 2 ^ 8" using unsigned_less [of a] by simp
  have "unat a * 2 ^ n < 2 ^ 8 * 2 ^ n" using a by simp
  also have "\<dots> = 2 ^ (8 + n)" by (simp add: power_add)
  also have "\<dots> \<le> (2 :: nat) ^ LENGTH('a)" using n by (intro power_increasing) auto
  finally have lt: "unat a * 2 ^ n < 2 ^ LENGTH('a)" .
  have "(2 :: nat) ^ 8 \<le> 2 ^ LENGTH('a)" using n by (intro power_increasing) auto
  with a have "unat a < 2 ^ LENGTH('a)" by linarith
  then have "unat (ucast a :: 'a word) = unat a"
    by (simp add: unsigned_ucast_eq take_bit_nat_eq_self)
  moreover have "unat (push_bit n (ucast a :: 'a word))
      = take_bit LENGTH('a) (push_bit n (unat (ucast a :: 'a word)))"
    by (simp only: unsigned_push_bit_eq)
  ultimately show ?thesis using lt
    by (simp add: push_bit_eq_mult take_bit_nat_eq_self)
qed

lemma unat_ucast_byte: "8 \<le> LENGTH('a) \<Longrightarrow> unat (ucast (a :: u8) :: 'a::len word) = unat a"
  using unat_shifted_byte [of 0, where 'a = 'a] by simp

lemma or_above:
  "(\<And>j. bit y j \<Longrightarrow> j < n) \<Longrightarrow> push_bit n x OR y = push_bit n x + (y :: 'a::len word)"
  by (rule disjunctive_add [symmetric]) (fastforce simp: bit_simps)

lemma bit_ucast_byte: "bit (ucast (a :: u8) :: 'a::len word) j \<Longrightarrow> j < 8"
  using bit_imp_le_length [of a j] by (simp add: bit_simps)

lemma bit_small_byte: "a < 128 \<Longrightarrow> bit (ucast (a :: u8) :: 'a::len word) j \<Longrightarrow> j < 7"
proof (rule ccontr)
  assume "a < 128" and b: "bit (ucast a :: 'a word) j" and "\<not> j < 7"
  then have small: "unat a < 2 ^ 7" by (simp add: word_less_nat_alt)
  from \<open>\<not> j < 7\<close> have "(2 :: nat) ^ 7 \<le> 2 ^ j" by (intro power_increasing) auto
  with small have "unat a div 2 ^ j = 0" by simp
  moreover from b have "bit (unat a) j" by (simp add: bit_simps)
  then have "odd (unat a div 2 ^ j)" by (simp add: bit_iff_odd)
  ultimately show False by simp
qed

lemma byte_bound: "unat (a :: u8) < 256"
  using unsigned_less [of a] by simp

lemma unat_sum4:
  "unat a + unat b + unat c + unat d < 2 ^ 32 \<Longrightarrow>
   unat (a + (b + (c + d)) :: u32) = unat a + unat b + unat c + unat d"
proof -
  assume lt: "unat a + unat b + unat c + unat d < 2 ^ 32"
  then have cd: "unat (c + d) = unat c + unat d"
    by (intro unat_add_lem [THEN iffD1]) simp
  with lt have bcd: "unat (b + (c + d)) = unat b + unat c + unat d"
    using unat_add_lem [THEN iffD1, of b "c + d"] by simp
  with lt show ?thesis
    using unat_add_lem [THEN iffD1, of a "b + (c + d)"] by simp
qed

lemma bytes_to_uint32_value:
  "unat (bytes_to_uint32 (a # b # c # d # rest))
     = unat a * 2 ^ 24 + unat b * 2 ^ 16 + unat c * 2 ^ 8 + unat d"
proof -
  let ?a = "push_bit 24 (ucast a) :: u32" and ?b = "push_bit 16 (ucast b) :: u32"
  and ?c = "push_bit 8 (ucast c) :: u32" and ?d = "ucast d :: u32"
  have 1: "?c OR ?d = ?c + ?d"
    using bit_ucast_byte [of d, where 'a = 32] by (intro or_above)
  have 2: "?b OR (?c OR ?d) = ?b + (?c OR ?d)"
    using bit_ucast_byte [of d, where 'a = 32] bit_ucast_byte [of c, where 'a = 32]
    by (intro or_above) (fastforce simp: bit_or_iff bit_push_bit_iff)
  have 3: "?a OR (?b OR (?c OR ?d)) = ?a + (?b OR (?c OR ?d))"
    using bit_ucast_byte [of d, where 'a = 32] bit_ucast_byte [of c, where 'a = 32]
      bit_ucast_byte [of b, where 'a = 32]
    by (intro or_above) (fastforce simp: bit_or_iff bit_push_bit_iff)
  have eq: "bytes_to_uint32 (a # b # c # d # rest) = ?a + (?b + (?c + ?d))"
    using 1 2 3 by (simp add: bytes_to_uint32_def or.assoc)
  have v: "unat ?a = unat a * 2 ^ 24" "unat ?b = unat b * 2 ^ 16" "unat ?c = unat c * 2 ^ 8"
    "unat ?d = unat d"
    by (simp_all add: unat_shifted_byte unat_ucast_byte)
  have "unat ?a + unat ?b + unat ?c + unat ?d < 2 ^ 32"
    using byte_bound [of a] byte_bound [of b] byte_bound [of c] byte_bound [of d]
    unfolding v by simp
  then have "unat (?a + (?b + (?c + ?d))) = unat ?a + unat ?b + unat ?c + unat ?d"
    by (rule unat_sum4)
  then show ?thesis unfolding eq v .
qed

lemma synchsafe_to_uint32_value:
  assumes "a < 128" "b < 128" "c < 128" "d < 128"
  shows "unat (synchsafe_to_uint32 (a # b # c # d # rest))
     = unat a * 2 ^ 21 + unat b * 2 ^ 14 + unat c * 2 ^ 7 + unat d"
proof -
  let ?a = "push_bit 21 (ucast a) :: u32" and ?b = "push_bit 14 (ucast b) :: u32"
  and ?c = "push_bit 7 (ucast c) :: u32" and ?d = "ucast d :: u32"
  have 1: "?c OR ?d = ?c + ?d"
    using bit_small_byte [OF assms(4)] by (intro or_above) 
  have 2: "?b OR (?c OR ?d) = ?b + (?c OR ?d)"
    using bit_small_byte [OF assms(4), where 'a = 32] bit_small_byte [OF assms(3), where 'a = 32]
    by (intro or_above) (fastforce simp: bit_or_iff bit_push_bit_iff)
  have 3: "?a OR (?b OR (?c OR ?d)) = ?a + (?b OR (?c OR ?d))"
    using bit_small_byte [OF assms(4), where 'a = 32] bit_small_byte [OF assms(3), where 'a = 32]
      bit_small_byte [OF assms(2), where 'a = 32]
    by (intro or_above) (fastforce simp: bit_or_iff bit_push_bit_iff)
  have eq: "synchsafe_to_uint32 (a # b # c # d # rest) = ?a + (?b + (?c + ?d))"
    using 1 2 3 by (simp add: synchsafe_to_uint32_def or.assoc)
  have v: "unat ?a = unat a * 2 ^ 21" "unat ?b = unat b * 2 ^ 14" "unat ?c = unat c * 2 ^ 7"
    "unat ?d = unat d"
    by (simp_all add: unat_shifted_byte unat_ucast_byte)
  have "unat ?a + unat ?b + unat ?c + unat ?d < 2 ^ 32"
    using byte_bound [of a] byte_bound [of b] byte_bound [of c] byte_bound [of d]
    unfolding v by simp
  then have "unat (?a + (?b + (?c + ?d))) = unat ?a + unat ?b + unat ?c + unat ?d"
    by (rule unat_sum4)
  then show ?thesis unfolding eq v .
qed

subsection \<open>A pass of the outer loop that changes nothing repeats for ever\<close>

lemma feed_loop_stuck:
  assumes "switch fits m rest = Break m rest" and "rest \<noteq> []"
    and "state (parser m) \<noteq> STATE_DONE"
  shows "feed_loop fits m rest = None"
proof (cases "feed_loop fits m rest")
  case None
  then show ?thesis .
next
  case (Some y)
  have "\<not> (switch fits m rest = Break m rest \<and> rest \<noteq> [] \<and> state (parser m) \<noteq> STATE_DONE)"
  proof (rule feed_loop.raw_induct
      [where P = "\<lambda>fits m rest y. \<not> (switch fits m rest = Break m rest \<and> rest \<noteq> []
                    \<and> state (parser m) \<noteq> STATE_DONE)", OF _ Some])
    fix loop fits m rest and y :: "int \<times> machine"
    assume IH: "\<And>fits m rest y. loop fits m rest = Some y \<Longrightarrow>
        \<not> (switch fits m rest = Break m rest \<and> rest \<noteq> [] \<and> state (parser m) \<noteq> STATE_DONE)"
      and body: "(if rest \<noteq> [] \<and> state (parser m) \<noteq> STATE_DONE
          then case switch fits m rest of
                 Break m' rest' \<Rightarrow> loop fits m' rest'
               | Return r m' \<Rightarrow> Some (r, m')
          else Some (0, m)) = Some y"
    show "\<not> (switch fits m rest = Break m rest \<and> rest \<noteq> [] \<and> state (parser m) \<noteq> STATE_DONE)"
    proof
      assume stuck: "switch fits m rest = Break m rest \<and> rest \<noteq> [] \<and> state (parser m) \<noteq> STATE_DONE"
      with body have "loop fits m rest = Some y" by simp
      from IH [OF this] stuck show False by blast
    qed
  qed
  with assms show ?thesis by blast
qed

subsection \<open>The loop that reads the payload\<close>

lemma advance_data_0: "advance_data 0 p = p"
  by (simp add: advance_data_def)

lemma advance_data_Suc:
  "advance_data n (p\<lparr>current_frame := (current_frame p)
          \<lparr>data_read := data_read (current_frame p) + 1\<rparr>,
       bytes_processed := bytes_processed p + 1\<rparr>) = advance_data (Suc n) p"
  by (simp add: advance_data_def add.assoc)

lemma frame_data_loop_stop:
  "\<not> (data_read (current_frame p) < frame_size (current_frame p)
      \<and> bytes_processed p < tag_size p)
   \<Longrightarrow> frame_data_loop p h rest = (p, h, rest)"
  by (cases rest) auto

lemma frame_data_loop_prefix:
  "length xs \<le> unat (frame_size (current_frame p)) - unat (data_read (current_frame p))
   \<Longrightarrow> length xs \<le> unat (tag_size p) - unat (bytes_processed p)
   \<Longrightarrow> frame_data_loop p h (xs @ ys) =
       frame_data_loop (advance_data (length xs) p)
         (poke_bytes h (frame_data (current_frame p)) (unat (data_read (current_frame p))) xs) ys"
proof (induction xs arbitrary: p h)
  case Nil
  then show ?case by (simp add: advance_data_0)
next
  case (Cons b xs)
  let ?p = "p\<lparr>current_frame := (current_frame p)
          \<lparr>data_read := data_read (current_frame p) + 1\<rparr>,
       bytes_processed := bytes_processed p + 1\<rparr>"
  from Cons.prems have lt: "data_read (current_frame p) < frame_size (current_frame p)"
    "bytes_processed p < tag_size p"
    by (auto simp: word_less_nat_alt)
  then have u: "unat (data_read (current_frame p) + 1) = Suc (unat (data_read (current_frame p)))"
    "unat (bytes_processed p + 1) = Suc (unat (bytes_processed p))"
    by (auto intro: word_inc_unat)
  have "frame_data_loop ?p (poke h (frame_data (current_frame p)) (unat (data_read (current_frame p))) b) (xs @ ys)
      = frame_data_loop (advance_data (length xs) ?p)
         (poke_bytes (poke h (frame_data (current_frame p)) (unat (data_read (current_frame p))) b)
            (frame_data (current_frame ?p)) (unat (data_read (current_frame ?p))) xs) ys"
    using Cons.prems u by (intro Cons.IH) auto
  then show ?case using lt u by (simp add: advance_data_Suc)
qed

lemma budget_advance_data:
  "n \<le> budget p \<Longrightarrow> budget (advance_data n p) = budget p - n"
  using word_add_of_nat_unat [of n "tag_size p" "bytes_processed p"]
  by (simp add: budget_def advance_data_def)

lemma wanted_advance_data:
  "n \<le> wanted p \<Longrightarrow> wanted (advance_data n p) = wanted p - n"
  using word_add_of_nat_unat [of n "frame_size (current_frame p)" "data_read (current_frame p)"]
  by (simp add: wanted_def advance_data_def)

lemma budget_0_iff: "budget p = 0 \<longleftrightarrow> tag_size p \<le> bytes_processed p"
  by (simp add: budget_def word_le_nat_alt)

lemma wanted_0_iff: "wanted p = 0 \<longleftrightarrow> frame_size (current_frame p) \<le> data_read (current_frame p)"
  by (simp add: wanted_def word_le_nat_alt)

lemma read_frame_data_within:
  assumes "n = length xs" "n \<le> budget (parser m)" "n < wanted (parser m)"
    "ys \<noteq> [] \<longrightarrow> n = budget (parser m)"
  shows "read_frame_data m (xs @ ys) =
     Break (m\<lparr>parser := advance_data n (parser m),
              mem := poke_bytes (mem m) (frame_data (current_frame (parser m)))
                       (unat (data_read (current_frame (parser m)))) xs\<rparr>) ys"
proof -
  let ?p = "advance_data n (parser m)"
  have w: "wanted ?p \<noteq> 0" using assms by (simp add: wanted_advance_data)
  have b: "ys \<noteq> [] \<Longrightarrow> budget ?p = 0" using assms by (simp add: budget_advance_data)
  have "frame_data_loop ?p h ys = (?p, h, ys)" for h
  proof (cases ys)
    case Nil
    then show ?thesis by simp
  next
    case (Cons y ys')
    with b have "tag_size ?p \<le> bytes_processed ?p" by (simp add: budget_0_iff)
    then show ?thesis by (intro frame_data_loop_stop) auto
  qed
  moreover have "length xs \<le> unat (frame_size (current_frame (parser m))) - unat (data_read (current_frame (parser m)))"
    "length xs \<le> unat (tag_size (parser m)) - unat (bytes_processed (parser m))"
    using assms by (auto simp: budget_def wanted_def)
  ultimately show ?thesis using w assms(1)
    by (simp add: read_frame_data_def frame_data_loop_prefix wanted_0_iff)
qed

subsection \<open>A frame that declares more payload than the tag has left\<close>

lemma feed_within_budget:
  assumes st: "state (parser m) = STATE_READ_FRAME_DATA"
    and big: "budget (parser m) < wanted (parser m)"
    and le: "length data \<le> budget (parser m)"
  shows "\<exists>m'. id3_parser_feed fits m data = Some (0, m')
           \<and> state (parser m') = STATE_READ_FRAME_DATA \<and> calls m' = calls m
           \<and> budget (parser m') = budget (parser m) - length data
           \<and> wanted (parser m') = wanted (parser m) - length data"
proof -
  let ?m = "m\<lparr>parser := advance_data (length data) (parser m),
              mem := poke_bytes (mem m) (frame_data (current_frame (parser m)))
                       (unat (data_read (current_frame (parser m)))) data\<rparr>"
  have step: "read_frame_data m (data @ []) = Break ?m []"
    using le big by (intro read_frame_data_within) auto
  have "id3_parser_feed fits m data = Some (0, if data = [] then m else ?m)"
    unfolding id3_parser_feed_def
    using step st by (subst feed_loop.simps) (simp add: switch_def feed_loop.simps)
  moreover have "(if data = [] then m else ?m) = ?m"
    by (simp add: advance_data_0)
  ultimately have "id3_parser_feed fits m data = Some (0, ?m)" by simp
  moreover have "state (parser ?m) = STATE_READ_FRAME_DATA" using st by (simp add: advance_data_def)
  moreover have "budget (parser ?m) = budget (parser m) - length data"
    using le by (simp add: budget_advance_data)
  moreover have "wanted (parser ?m) = wanted (parser m) - length data"
    using le big by (simp add: wanted_advance_data)
  ultimately show ?thesis
    by (intro exI [of _ ?m]) simp
qed

lemma feed_beyond_budget:
  assumes st: "state (parser m) = STATE_READ_FRAME_DATA"
    and big: "budget (parser m) < wanted (parser m)"
    and gt: "budget (parser m) < length data"
  shows "id3_parser_feed fits m data = None"
proof -
  define n where "n = budget (parser m)"
  define xs where "xs = take n data"
  define ys where "ys = drop n data"
  have d: "data = xs @ ys" and ys: "ys \<noteq> []" and len: "length xs = n"
    using gt by (auto simp: xs_def ys_def n_def)
  let ?m = "m\<lparr>parser := advance_data n (parser m),
              mem := poke_bytes (mem m) (frame_data (current_frame (parser m)))
                       (unat (data_read (current_frame (parser m)))) xs\<rparr>"
  have step: "read_frame_data m (xs @ ys) = Break ?m ys"
    using len big by (intro read_frame_data_within) (auto simp: n_def)
  have st': "state (parser ?m) = STATE_READ_FRAME_DATA" using st by (simp add: advance_data_def)
  have b0: "budget (parser ?m) = 0" by (simp add: budget_advance_data n_def)
  have w0: "0 < wanted (parser ?m)" using big by (simp add: wanted_advance_data n_def)
  have "read_frame_data ?m ([] @ ys) = Break (?m\<lparr>parser := advance_data 0 (parser ?m),
              mem := poke_bytes (mem ?m) (frame_data (current_frame (parser ?m)))
                       (unat (data_read (current_frame (parser ?m)))) []\<rparr>) ys"
    using b0 w0 by (intro read_frame_data_within) auto
  then have "switch fits ?m ys = Break ?m ys"
    using st' by (simp add: switch_def advance_data_0)
  then have stuck: "feed_loop fits ?m ys = None"
    using ys st' by (intro feed_loop_stuck) auto
  have "feed_loop fits m (xs @ ys) = feed_loop fits ?m ys"
    using step st ys by (subst feed_loop.simps) (simp add: switch_def)
  with stuck show ?thesis
    by (simp add: id3_parser_feed_def d)
qed

lemma oversize_tag_run:
  "map_option (\<lambda>(r, m). (r, state (parser m), calls m, budget (parser m), wanted (parser m)))
     (id3_parser_feed (\<lambda>_. True) (start True) oversize_tag)
   = Some (0, STATE_READ_FRAME_DATA, [], 2, 5)"
  by code_simp

lemma after_oversize_tag:
  "state (parser (after (\<lambda>_. True) (start True) oversize_tag)) = STATE_READ_FRAME_DATA"
  "calls (after (\<lambda>_. True) (start True) oversize_tag) = []"
  "budget (parser (after (\<lambda>_. True) (start True) oversize_tag)) = 2"
  "wanted (parser (after (\<lambda>_. True) (start True) oversize_tag)) = 5"
  using oversize_tag_run by (auto simp: after_def split: option.splits)

text \<open>
  C10. While the parser reads the payload of a frame that wants more bytes than the
  budget of the tag has left, a call that brings no more bytes than the budget returns
  0, invokes no callback and stays in \<^verbatim>\<open>STATE_READ_FRAME_DATA\<close>; a call that brings more
  bytes than the budget does not return: once \<^verbatim>\<open>bytes_processed\<close> has reached
  \<^verbatim>\<open>tag_size\<close> the case of lines 168-194 changes nothing and the loop of line 40 runs
  for ever.
\<close>

theorem frame_beyond_budget:
  assumes "state (parser m) = STATE_READ_FRAME_DATA"
    and "budget (parser m) < wanted (parser m)"
  shows "(length data \<le> budget (parser m) \<longrightarrow>
            (\<exists>m'. id3_parser_feed fits m data = Some (0, m')
                \<and> state (parser m') = STATE_READ_FRAME_DATA \<and> calls m' = calls m
                \<and> budget (parser m') = budget (parser m) - length data
                \<and> wanted (parser m') = wanted (parser m) - length data))
       \<and> (budget (parser m) < length data \<longrightarrow> id3_parser_feed fits m data = None)"
  using assms feed_within_budget [of m data fits] feed_beyond_budget [of m data fits] by blast

theorem frame_beyond_budget_witness:
  "state (parser (after (\<lambda>_. True) (start True) oversize_tag)) = STATE_READ_FRAME_DATA
   \<and> budget (parser (after (\<lambda>_. True) (start True) oversize_tag)) = 2
   \<and> wanted (parser (after (\<lambda>_. True) (start True) oversize_tag)) = 5
   \<and> (\<exists>m'. id3_parser_feed (\<lambda>_. True) (after (\<lambda>_. True) (start True) oversize_tag) [0x61, 0x62]
              = Some (0, m')
          \<and> state (parser m') = STATE_READ_FRAME_DATA \<and> calls m' = []
          \<and> budget (parser m') = 0 \<and> wanted (parser m') = 3)
   \<and> id3_parser_feed (\<lambda>_. True) (after (\<lambda>_. True) (start True) oversize_tag) [0x61, 0x62, 0x63]
       = None"
  using frame_beyond_budget [of "after (\<lambda>_. True) (start True) oversize_tag" "[0x61, 0x62]" "\<lambda>_. True"]
    frame_beyond_budget [of "after (\<lambda>_. True) (start True) oversize_tag" "[0x61, 0x62, 0x63]" "\<lambda>_. True"]
  by (simp add: after_oversize_tag)

subsection \<open>The fields of a frame header\<close>

lemma size22_value:
  "unat (push_bit 16 (ucast (a :: u8)) OR push_bit 8 (ucast (b :: u8)) OR ucast (c :: u8) :: u32)
     = unat a * 2 ^ 16 + unat b * 2 ^ 8 + unat c"
proof -
  have "bytes_to_uint32 [0, a, b, c] = push_bit 16 (ucast a) OR push_bit 8 (ucast b) OR ucast c"
    by (simp add: bytes_to_uint32_def)
  then show ?thesis using bytes_to_uint32_value [of 0 a b c "[]"] by simp
qed

lemma frame_flags_value:
  "unat (push_bit 8 (ucast (a :: u8)) OR ucast (b :: u8) :: u16) = unat a * 2 ^ 8 + unat b"
proof -
  let ?a = "push_bit 8 (ucast a) :: u16" and ?b = "ucast b :: u16"
  have "?a OR ?b = ?a + ?b"
    using bit_ucast_byte [of b, where 'a = 16] by (intro or_above)
  moreover have v: "unat ?a = unat a * 2 ^ 8" "unat ?b = unat b"
    by (simp_all add: unat_shifted_byte unat_ucast_byte)
  moreover have "unat ?a + unat ?b < 2 ^ 16"
    using byte_bound [of a] byte_bound [of b] unfolding v by simp
  then have "unat (?a + ?b) = unat ?a + unat ?b"
    by (intro unat_add_lem [THEN iffD1]) simp
  ultimately show ?thesis by simp
qed

subsection \<open>The loop that reads a frame header\<close>

lemma store_bytes_eq:
  "k + length xs \<le> length buf \<Longrightarrow>
   store_bytes buf k xs = take k buf @ xs @ drop (k + length xs) buf"
proof (induction xs arbitrary: buf k)
  case Nil
  then show ?case by simp
next
  case (Cons b xs)
  then have "store_bytes (buf[k := b]) (Suc k) xs
      = take (Suc k) (buf[k := b]) @ xs @ drop (Suc k + length xs) (buf[k := b])"
    by (intro Cons.IH) simp
  moreover have "take (Suc k) (buf[k := b]) = take k buf @ [b]"
    using Cons.prems by (simp add: take_Suc_conv_app_nth)
  ultimately show ?case by simp
qed

lemma length_store_bytes [simp]: "length (store_bytes buf k xs) = length buf"
  by (induction xs arbitrary: buf k) auto

lemma advance_header_Nil: "advance_header [] p = p"
  by (simp add: advance_header_def)

lemma advance_header_Cons:
  "advance_header xs (p\<lparr>buffer := (buffer p)[buf_pos p := b], buf_pos := Suc (buf_pos p),
                bytes_processed := bytes_processed p + 1\<rparr>) = advance_header (b # xs) p"
  by (simp add: advance_header_def add.assoc)

lemma budget_advance_header:
  "length xs \<le> budget p \<Longrightarrow> budget (advance_header xs p) = budget p - length xs"
  using word_add_of_nat_unat [of "length xs" "tag_size p" "bytes_processed p"]
  by (simp add: budget_def advance_header_def)

lemma frame_header_loop_stop:
  "\<not> (buf_pos p < hs \<and> bytes_processed p < tag_size p)
   \<Longrightarrow> frame_header_loop hs p rest = (p, rest)"
  by (cases rest) auto

lemma frame_header_loop_prefix:
  "buf_pos p + length xs \<le> hs \<Longrightarrow> length xs \<le> budget p
   \<Longrightarrow> frame_header_loop hs p (xs @ ys) = frame_header_loop hs (advance_header xs p) ys"
proof (induction xs arbitrary: p)
  case Nil
  then show ?case by (simp add: advance_header_Nil)
next
  case (Cons b xs)
  let ?p = "p\<lparr>buffer := (buffer p)[buf_pos p := b], buf_pos := Suc (buf_pos p),
                bytes_processed := bytes_processed p + 1\<rparr>"
  from Cons.prems have lt: "bytes_processed p < tag_size p" "buf_pos p < hs"
    by (auto simp: word_less_nat_alt budget_def)
  then have "budget ?p = budget p - 1"
    by (simp add: budget_def word_inc_unat)
  with Cons.prems have "frame_header_loop hs ?p (xs @ ys) = frame_header_loop hs (advance_header xs ?p) ys"
    by (intro Cons.IH) auto
  then show ?case using lt by (simp add: advance_header_Cons)
qed

lemma frame_header_loop_complete:
  assumes "buf_pos p + length xs = hs" "length xs \<le> budget p"
  shows "frame_header_loop hs p (xs @ ys) = (advance_header xs p, ys)"
proof -
  have "frame_header_loop hs (advance_header xs p) ys = (advance_header xs p, ys)"
    using assms by (intro frame_header_loop_stop) (simp add: advance_header_def)
  with assms show ?thesis by (simp add: frame_header_loop_prefix)
qed

subsection \<open>Padding\<close>

lemma read_frame_header_padding:
  assumes st: "state (parser m) = STATE_READ_FRAME_HEADER"
    and len: "length (buffer (parser m)) = 10"
    and ne: "hdr \<noteq> []"
    and pos: "buf_pos (parser m) + length hdr = frame_header_size (parser m)"
    and bud: "length hdr \<le> budget (parser m)"
    and zero: "(take (buf_pos (parser m)) (buffer (parser m)) @ hdr) ! 0 = 0"
  shows "read_frame_header fits m (hdr @ rest)
     = Break (m\<lparr>parser := (advance_header hdr (parser m))\<lparr>state := STATE_DONE\<rparr>\<rparr>) rest"
proof -
  let ?p = "advance_header hdr (parser m)"
  have loop: "frame_header_loop (frame_header_size (parser m)) (parser m) (hdr @ rest) = (?p, rest)"
    using pos bud by (rule frame_header_loop_complete)
  have "0 < budget (parser m)" using ne bud by (cases hdr) auto
  then have open_: "\<not> tag_size (parser m) \<le> bytes_processed (parser m)"
    by (simp flip: budget_0_iff)
  have hs: "frame_header_size (parser m) \<le> 10" by (simp add: frame_header_size_def)
  have "buffer ?p = take (buf_pos (parser m)) (buffer (parser m)) @ hdr
      @ drop (buf_pos (parser m) + length hdr) (buffer (parser m))"
    using pos hs len by (simp add: advance_header_def store_bytes_eq)
  then have "buffer ?p ! 0 = (take (buf_pos (parser m)) (buffer (parser m)) @ hdr) ! 0"
    using ne by (simp add: nth_append)
  with zero have z: "buffer ?p ! 0 = 0" by simp
  have bp: "buf_pos ?p = frame_header_size (parser m)" using pos by (simp add: advance_header_def)
  show ?thesis using open_ loop z bp by (simp add: read_frame_header_def)
qed

text \<open>
  C6. When a call of \<^verbatim>\<open>id3_parser_feed\<close> brings the last bytes \<open>hdr\<close> of a frame header
  (6 bytes in all for version 2, 10 from version 3 on) and the first byte of the header
  is zero, that call ends in \<^verbatim>\<open>STATE_DONE\<close>, invokes no callback and leaves the heap
  alone, whatever follows in the chunk and however much of the tag is left.
\<close>

theorem padding_ends_parsing:
  assumes "state (parser m) = STATE_READ_FRAME_HEADER"
    and "length (buffer (parser m)) = 10"
    and "hdr \<noteq> []"
    and "buf_pos (parser m) + length hdr = frame_header_size (parser m)"
    and "length hdr \<le> budget (parser m)"
    and "(take (buf_pos (parser m)) (buffer (parser m)) @ hdr) ! 0 = 0"
  shows "\<exists>m'. id3_parser_feed fits m (hdr @ rest) = Some (0, m')
           \<and> state (parser m') = STATE_DONE \<and> calls m' = calls m \<and> mem m' = mem m
           \<and> budget (parser m') = budget (parser m) - length hdr"
proof -
  let ?m = "m\<lparr>parser := (advance_header hdr (parser m))\<lparr>state := STATE_DONE\<rparr>\<rparr>"
  have "read_frame_header fits m (hdr @ rest) = Break ?m rest"
    using assms by (rule read_frame_header_padding)
  then have "feed_loop fits m (hdr @ rest) = feed_loop fits ?m rest"
    using assms(1,3) by (subst feed_loop.simps) (simp add: switch_def)
  also have "\<dots> = Some (0, ?m)" by (simp add: feed_loop.simps)
  finally have "id3_parser_feed fits m (hdr @ rest) = Some (0, ?m)"
    by (simp add: id3_parser_feed_def)
  moreover have "budget (parser ?m) = budget (parser m) - length hdr"
    using budget_advance_header [OF assms(5)] by (simp add: budget_def)
  ultimately show ?thesis by (intro exI [of _ ?m]) simp
qed

lemma v23_header_run:
  "map_option (\<lambda>(r, m). (r, state (parser m), length (buffer (parser m)), buf_pos (parser m),
       frame_header_size (parser m), budget (parser m), calls m))
     (id3_parser_feed (\<lambda>_. True) (start True) v23_header)
   = Some (0, STATE_READ_FRAME_HEADER, 10, 0, 10, 17, [])"
  by code_simp

lemma after_v23_header:
  "state (parser (after (\<lambda>_. True) (start True) v23_header)) = STATE_READ_FRAME_HEADER"
  "length (buffer (parser (after (\<lambda>_. True) (start True) v23_header))) = 10"
  "buf_pos (parser (after (\<lambda>_. True) (start True) v23_header)) = 0"
  "frame_header_size (parser (after (\<lambda>_. True) (start True) v23_header)) = 10"
  "budget (parser (after (\<lambda>_. True) (start True) v23_header)) = 17"
  "calls (after (\<lambda>_. True) (start True) v23_header) = []"
  using v23_header_run by (auto simp: after_def split: option.splits)

theorem padding_ends_parsing_witness:
  "\<exists>m'. id3_parser_feed (\<lambda>_. True) (after (\<lambda>_. True) (start True) v23_header)
            ([0, 0, 0, 0, 0, 0, 0, 0, 0, 0] @ [0x54, 0x49])
          = Some (0, m')
       \<and> state (parser m') = STATE_DONE \<and> calls m' = []
       \<and> mem m' = mem (after (\<lambda>_. True) (start True) v23_header)
       \<and> budget (parser m') = 7"
  using padding_ends_parsing [of "after (\<lambda>_. True) (start True) v23_header"
      "[0, 0, 0, 0, 0, 0, 0, 0, 0, 0]" "\<lambda>_. True" "[0x54, 0x49]"]
  by (simp add: after_v23_header)

subsection \<open>Decoding a frame header\<close>

lemma read_frame_header_frame:
  assumes st: "state (parser m) = STATE_READ_FRAME_HEADER"
    and len: "length (buffer (parser m)) = 10"
    and ne: "hdr \<noteq> []"
    and pos: "buf_pos (parser m) + length hdr = frame_header_size (parser m)"
    and bud: "length hdr \<le> budget (parser m)"
    and nz: "(take (buf_pos (parser m)) (buffer (parser m)) @ hdr) ! 0 \<noteq> 0"
    and fits: "\<And>n. fits n"
  shows "read_frame_header fits m (hdr @ rest) = Break (begin_frame fits m hdr) rest"
proof -
  let ?p = "advance_header hdr (parser m)"
  have loop: "frame_header_loop (frame_header_size (parser m)) (parser m) (hdr @ rest) = (?p, rest)"
    using pos bud by (rule frame_header_loop_complete)
  have "0 < budget (parser m)" using ne bud by (cases hdr) auto
  then have open_: "\<not> tag_size (parser m) \<le> bytes_processed (parser m)"
    by (simp flip: budget_0_iff)
  have hs: "frame_header_size (parser m) \<le> 10" by (simp add: frame_header_size_def)
  have "buffer ?p = take (buf_pos (parser m)) (buffer (parser m)) @ hdr
      @ drop (buf_pos (parser m) + length hdr) (buffer (parser m))"
    using pos hs len by (simp add: advance_header_def store_bytes_eq)
  then have "buffer ?p ! 0 = (take (buf_pos (parser m)) (buffer (parser m)) @ hdr) ! 0"
    using ne by (simp add: nth_append)
  with nz have z: "buffer ?p ! 0 \<noteq> 0" by simp
  have bp: "buf_pos ?p = frame_header_size (parser m)" using pos by (simp add: advance_header_def)
  show ?thesis using open_ loop z bp fits
    by (simp add: read_frame_header_def begin_frame_def malloc_def Let_def)
qed

lemma buffer_after_header:
  assumes "length (buffer p) = 10" "buf_pos p + length hdr = frame_header_size p"
  shows "buffer (advance_header hdr p)
     = (take (buf_pos p) (buffer p) @ hdr) @ drop (frame_header_size p) (buffer p)"
proof -
  have "frame_header_size p \<le> 10" by (simp add: frame_header_size_def)
  with assms show ?thesis by (simp add: advance_header_def store_bytes_eq)
qed

lemma four_bytes:
  assumes "4 \<le> length (bs :: u8 list)"
  obtains r where "bs = bs ! 0 # bs ! 1 # bs ! 2 # bs ! 3 # r"
proof -
  from assms obtain a b c d r where "bs = a # b # c # d # r"
    by (auto simp: Suc_le_length_iff eval_nat_numeral)
  then have "bs = bs ! 0 # bs ! 1 # bs ! 2 # bs ! 3 # r" by simp
  then show thesis by (rule that)
qed

lemma bytes_to_uint32_nth:
  assumes "4 \<le> length bs"
  shows "unat (bytes_to_uint32 bs)
     = unat (bs ! 0) * 2 ^ 24 + unat (bs ! 1) * 2 ^ 16 + unat (bs ! 2) * 2 ^ 8 + unat (bs ! 3)"
proof -
  from assms obtain r where "bs = bs ! 0 # bs ! 1 # bs ! 2 # bs ! 3 # r" by (rule four_bytes)
  then show ?thesis
    using bytes_to_uint32_value [of "bs ! 0" "bs ! 1" "bs ! 2" "bs ! 3" r] by simp
qed

lemma synchsafe_to_uint32_nth:
  assumes "4 \<le> length bs" "bs ! 0 < 128" "bs ! 1 < 128" "bs ! 2 < 128" "bs ! 3 < 128"
  shows "unat (synchsafe_to_uint32 bs)
     = unat (bs ! 0) * 2 ^ 21 + unat (bs ! 1) * 2 ^ 14 + unat (bs ! 2) * 2 ^ 7 + unat (bs ! 3)"
proof -
  from assms(1) obtain r where "bs = bs ! 0 # bs ! 1 # bs ! 2 # bs ! 3 # r" by (rule four_bytes)
  then show ?thesis
    using synchsafe_to_uint32_value [OF assms(2-5), of r] by simp
qed

lemma parse_frame_header_v2:
  assumes "version p < 3" "buffer p = H @ t" "length H = 6"
    "length (frame_id (current_frame p)) = 5"
  shows "take 3 (frame_id (current_frame (parse_frame_header p))) = take 3 H"
    "frame_id (current_frame (parse_frame_header p)) ! 3 = 0"
    "unat (frame_size (current_frame (parse_frame_header p)))
       = unat (H ! 3) * 2 ^ 16 + unat (H ! 4) * 2 ^ 8 + unat (H ! 5)"
    "frame_flags (current_frame (parse_frame_header p)) = 0"
  using assms
  by (simp_all add: parse_frame_header_def Let_def size22_value not_le [symmetric] nth_append)

lemma parse_frame_header_v3:
  assumes "3 \<le> version p" "version p \<noteq> 4" "buffer p = H @ t" "length H = 10"
    "length (frame_id (current_frame p)) = 5"
  shows "take 4 (frame_id (current_frame (parse_frame_header p))) = take 4 H"
    "frame_id (current_frame (parse_frame_header p)) ! 4 = 0"
    "unat (frame_size (current_frame (parse_frame_header p)))
       = unat (H ! 4) * 2 ^ 24 + unat (H ! 5) * 2 ^ 16 + unat (H ! 6) * 2 ^ 8 + unat (H ! 7)"
    "unat (frame_flags (current_frame (parse_frame_header p))) = unat (H ! 8) * 2 ^ 8 + unat (H ! 9)"
  using assms
  by (simp_all add: parse_frame_header_def Let_def bytes_to_uint32_nth frame_flags_value nth_append)

lemma parse_frame_header_v4:
  assumes "version p = 4" "buffer p = H @ t" "length H = 10"
    "length (frame_id (current_frame p)) = 5"
  shows "take 4 (frame_id (current_frame (parse_frame_header p))) = take 4 H"
    "frame_id (current_frame (parse_frame_header p)) ! 4 = 0"
    "frame_size (current_frame (parse_frame_header p)) = synchsafe_to_uint32 (drop 4 H @ t)"
    "H ! 4 < 128 \<Longrightarrow> H ! 5 < 128 \<Longrightarrow> H ! 6 < 128 \<Longrightarrow> H ! 7 < 128 \<Longrightarrow>
       unat (frame_size (current_frame (parse_frame_header p)))
       = unat (H ! 4) * 2 ^ 21 + unat (H ! 5) * 2 ^ 14 + unat (H ! 6) * 2 ^ 7 + unat (H ! 7)"
    "unat (frame_flags (current_frame (parse_frame_header p))) = unat (H ! 8) * 2 ^ 8 + unat (H ! 9)"
  using assms
  by (simp_all add: parse_frame_header_def Let_def synchsafe_to_uint32_nth frame_flags_value nth_append)

lemma begin_frame_fields:
  "state (parser (begin_frame fits m hdr)) = STATE_READ_FRAME_DATA"
  "calls (begin_frame fits m hdr) = calls m"
  "frame_id (current_frame (parser (begin_frame fits m hdr)))
     = frame_id (current_frame (parse_frame_header (advance_header hdr (parser m))))"
  "frame_size (current_frame (parser (begin_frame fits m hdr)))
     = frame_size (current_frame (parse_frame_header (advance_header hdr (parser m))))"
  "frame_flags (current_frame (parser (begin_frame fits m hdr)))
     = frame_flags (current_frame (parse_frame_header (advance_header hdr (parser m))))"
  "data_read (current_frame (parser (begin_frame fits m hdr))) = 0"
  "tag_size (parser (begin_frame fits m hdr)) = tag_size (parser m)"
  "bytes_processed (parser (begin_frame fits m hdr))
     = bytes_processed (parser m) + of_nat (length hdr)"
  "version (parser (begin_frame fits m hdr)) = version (parser m)"
  "frame_callback (parser (begin_frame fits m hdr)) = frame_callback (parser m)"
  by (simp_all add: begin_frame_def Let_def parse_frame_header_def advance_header_def
      split: prod.splits)

lemma v22_header_run:
  "map_option (\<lambda>(r, m). (r, state (parser m), length (buffer (parser m)), buf_pos (parser m),
       frame_header_size (parser m), budget (parser m), version (parser m),
       length (frame_id (current_frame (parser m)))))
     (id3_parser_feed (\<lambda>_. True) (start True) v22_header)
   = Some (0, STATE_READ_FRAME_HEADER, 10, 0, 6, 40, 2, 5)"
  by code_simp

lemma after_v22_header:
  "state (parser (after (\<lambda>_. True) (start True) v22_header)) = STATE_READ_FRAME_HEADER"
  "length (buffer (parser (after (\<lambda>_. True) (start True) v22_header))) = 10"
  "buf_pos (parser (after (\<lambda>_. True) (start True) v22_header)) = 0"
  "frame_header_size (parser (after (\<lambda>_. True) (start True) v22_header)) = 6"
  "budget (parser (after (\<lambda>_. True) (start True) v22_header)) = 40"
  "version (parser (after (\<lambda>_. True) (start True) v22_header)) = 2"
  "length (frame_id (current_frame (parser (after (\<lambda>_. True) (start True) v22_header)))) = 5"
  using v22_header_run by (auto simp: after_def split: option.splits)

lemma v24_header_run:
  "map_option (\<lambda>(r, m). (r, state (parser m), length (buffer (parser m)), buf_pos (parser m),
       frame_header_size (parser m), budget (parser m), version (parser m),
       length (frame_id (current_frame (parser m)))))
     (id3_parser_feed (\<lambda>_. True) (start True) v24_header)
   = Some (0, STATE_READ_FRAME_HEADER, 10, 0, 10, 256, 4, 5)"
  by code_simp

lemma after_v24_header:
  "state (parser (after (\<lambda>_. True) (start True) v24_header)) = STATE_READ_FRAME_HEADER"
  "length (buffer (parser (after (\<lambda>_. True) (start True) v24_header))) = 10"
  "buf_pos (parser (after (\<lambda>_. True) (start True) v24_header)) = 0"
  "frame_header_size (parser (after (\<lambda>_. True) (start True) v24_header)) = 10"
  "budget (parser (after (\<lambda>_. True) (start True) v24_header)) = 256"
  "version (parser (after (\<lambda>_. True) (start True) v24_header)) = 4"
  "length (frame_id (current_frame (parser (after (\<lambda>_. True) (start True) v24_header)))) = 5"
  using v24_header_run by (auto simp: after_def split: option.splits)

lemma v23_header_fields:
  "map_option (\<lambda>(r, m). (version (parser m),
       length (frame_id (current_frame (parser m))), frame_callback (parser m), bytes_processed (parser m)))
     (id3_parser_feed (\<lambda>_. True) (start True) v23_header)
   = Some (3, 5, True, 0)"
  by code_simp

lemma after_v23_header_more:
  "version (parser (after (\<lambda>_. True) (start True) v23_header)) = 3"
  "length (frame_id (current_frame (parser (after (\<lambda>_. True) (start True) v23_header)))) = 5"
  "frame_callback (parser (after (\<lambda>_. True) (start True) v23_header))"
  "bytes_processed (parser (after (\<lambda>_. True) (start True) v23_header)) = 0"
  using v23_header_fields by (auto simp: after_def split: option.splits)

text \<open>
  C7. When a call brings the last bytes \<open>hdr\<close> of a frame header \<open>H\<close> whose first byte
  is not zero, and the allocation succeeds, the pass of the switch ends in
  \<^verbatim>\<open>STATE_READ_FRAME_DATA\<close> with the bytes after the header unread, and the frame holds:
  for version 2 a header of 6 bytes, the id \<open>H[0..2]\<close> closed by a zero, the size
  \<open>H[3] * 2^16 + H[4] * 2^8 + H[5]\<close> and flags 0; for version 3 a header of 10 bytes, the
  id \<open>H[0..3]\<close> closed by a zero, the size \<open>H[4] * 2^24 + H[5] * 2^16 + H[6] * 2^8 + H[7]\<close>;
  for version 4 a header of 10 bytes, the same id and, the four size bytes being below
  128, the size \<open>H[4] * 2^21 + H[5] * 2^14 + H[6] * 2^7 + H[7]\<close>; for versions 3 and 4 the
  flags \<open>H[8] * 2^8 + H[9]\<close>.
\<close>

theorem version_dispatch:
  assumes st: "state (parser m) = STATE_READ_FRAME_HEADER"
    and len: "length (buffer (parser m)) = 10"
    and idlen: "length (frame_id (current_frame (parser m))) = 5"
    and ne: "hdr \<noteq> []"
    and pos: "buf_pos (parser m) + length hdr = frame_header_size (parser m)"
    and bud: "length hdr \<le> budget (parser m)"
    and H: "H = take (buf_pos (parser m)) (buffer (parser m)) @ hdr"
    and nz: "H ! 0 \<noteq> 0"
    and fits: "\<And>n. fits n"
  shows "\<exists>m' f. switch fits m (hdr @ rest) = Break m' rest
           \<and> state (parser m') = STATE_READ_FRAME_DATA \<and> f = current_frame (parser m')
           \<and> (version (parser m) = 2 \<longrightarrow>
                 length H = 6 \<and> take 3 (frame_id f) = take 3 H \<and> frame_id f ! 3 = 0
                 \<and> unat (frame_size f) = unat (H ! 3) * 2 ^ 16 + unat (H ! 4) * 2 ^ 8 + unat (H ! 5)
                 \<and> frame_flags f = 0)
           \<and> (version (parser m) = 3 \<longrightarrow>
                 length H = 10 \<and> take 4 (frame_id f) = take 4 H \<and> frame_id f ! 4 = 0
                 \<and> unat (frame_size f)
                     = unat (H ! 4) * 2 ^ 24 + unat (H ! 5) * 2 ^ 16 + unat (H ! 6) * 2 ^ 8 + unat (H ! 7)
                 \<and> unat (frame_flags f) = unat (H ! 8) * 2 ^ 8 + unat (H ! 9))
           \<and> (version (parser m) = 4 \<longrightarrow>
                 length H = 10 \<and> take 4 (frame_id f) = take 4 H \<and> frame_id f ! 4 = 0
                 \<and> (H ! 4 < 128 \<and> H ! 5 < 128 \<and> H ! 6 < 128 \<and> H ! 7 < 128 \<longrightarrow>
                      unat (frame_size f)
                      = unat (H ! 4) * 2 ^ 21 + unat (H ! 5) * 2 ^ 14 + unat (H ! 6) * 2 ^ 7 + unat (H ! 7))
                 \<and> unat (frame_flags f) = unat (H ! 8) * 2 ^ 8 + unat (H ! 9))"
proof -
  let ?p = "advance_header hdr (parser m)"
  let ?m = "begin_frame fits m hdr"
  have step: "switch fits m (hdr @ rest) = Break ?m rest"
    using read_frame_header_frame [OF st len ne pos bud nz [unfolded H] fits] st
    by (simp add: switch_def)
  have buf: "buffer ?p = H @ drop (frame_header_size (parser m)) (buffer (parser m))"
    unfolding H using len pos by (rule buffer_after_header)
  have hs: "frame_header_size (parser m) \<le> 10" by (simp add: frame_header_size_def)
  have lenH: "length H = frame_header_size (parser m)"
    using pos hs len by (simp add: H)
  have ver: "version ?p = version (parser m)"
    and idl: "length (frame_id (current_frame ?p)) = 5"
    using idlen by (simp_all add: advance_header_def)
  have v2: "version (parser m) = 2 \<Longrightarrow> length H = 6 \<and> version ?p < 3"
    using lenH ver by (simp add: frame_header_size_def)
  have v3: "version (parser m) = 3 \<Longrightarrow> length H = 10 \<and> 3 \<le> version ?p \<and> version ?p \<noteq> 4"
    using lenH ver by (simp add: frame_header_size_def)
  have v4: "version (parser m) = 4 \<Longrightarrow> length H = 10 \<and> version ?p = 4"
    using lenH ver by (simp add: frame_header_size_def)
  show ?thesis
    apply (intro exI [of _ ?m] exI [of _ "current_frame (parser ?m)"] conjI impI step refl)
    subgoal by (simp add: begin_frame_fields)
    subgoal using v2 by simp
    subgoal using v2 parse_frame_header_v2(1) [OF _ buf _ idl] by (simp add: begin_frame_fields)
    subgoal using v2 parse_frame_header_v2(2) [OF _ buf _ idl] by (simp add: begin_frame_fields)
    subgoal using v2 parse_frame_header_v2(3) [OF _ buf _ idl] by (simp add: begin_frame_fields)
    subgoal using v2 parse_frame_header_v2(4) [OF _ buf _ idl] by (simp add: begin_frame_fields)
    subgoal using v3 by simp
    subgoal using v3 parse_frame_header_v3(1) [OF _ _ buf _ idl] by (simp add: begin_frame_fields)
    subgoal using v3 parse_frame_header_v3(2) [OF _ _ buf _ idl] by (simp add: begin_frame_fields)
    subgoal using v3 parse_frame_header_v3(3) [OF _ _ buf _ idl] by (simp add: begin_frame_fields)
    subgoal using v3 parse_frame_header_v3(4) [OF _ _ buf _ idl] by (simp add: begin_frame_fields)
    subgoal using v4 by simp
    subgoal using v4 parse_frame_header_v4(1) [OF _ buf _ idl] by (simp add: begin_frame_fields)
    subgoal using v4 parse_frame_header_v4(2) [OF _ buf _ idl] by (simp add: begin_frame_fields)
    subgoal using v4 parse_frame_header_v4(4) [OF _ buf _ idl] by (simp add: begin_frame_fields)
    subgoal using v4 parse_frame_header_v4(5) [OF _ buf _ idl] by (simp add: begin_frame_fields)
    done
qed

theorem version_dispatch_witness:
  "(\<exists>m' f. switch (\<lambda>_. True) (after (\<lambda>_. True) (start True) v22_header)
              ([0x54, 0x54, 0x32, 0, 1, 2] @ [0x61]) = Break m' [0x61]
       \<and> f = current_frame (parser m')
       \<and> take 3 (frame_id f) = [0x54, 0x54, 0x32] \<and> frame_id f ! 3 = 0
       \<and> unat (frame_size f) = 258 \<and> frame_flags f = 0)
   \<and> (\<exists>m' f. switch (\<lambda>_. True) (after (\<lambda>_. True) (start True) v23_header)
              ([0x54, 0x49, 0x54, 0x32, 0, 0, 1, 4, 0x40, 1] @ [0x61]) = Break m' [0x61]
       \<and> f = current_frame (parser m')
       \<and> take 4 (frame_id f) = [0x54, 0x49, 0x54, 0x32] \<and> frame_id f ! 4 = 0
       \<and> unat (frame_size f) = 260 \<and> unat (frame_flags f) = 16385)
   \<and> (\<exists>m' f. switch (\<lambda>_. True) (after (\<lambda>_. True) (start True) v24_header)
              ([0x54, 0x49, 0x54, 0x32, 0, 0, 2, 1, 0x40, 1] @ [0x61]) = Break m' [0x61]
       \<and> f = current_frame (parser m')
       \<and> take 4 (frame_id f) = [0x54, 0x49, 0x54, 0x32] \<and> frame_id f ! 4 = 0
       \<and> unat (frame_size f) = 257 \<and> unat (frame_flags f) = 16385)"
  using
    version_dispatch [of "after (\<lambda>_. True) (start True) v22_header"
      "[0x54, 0x54, 0x32, 0, 1, 2]" "[0x54, 0x54, 0x32, 0, 1, 2]" "\<lambda>_. True" "[0x61]"]
    version_dispatch [of "after (\<lambda>_. True) (start True) v23_header"
      "[0x54, 0x49, 0x54, 0x32, 0, 0, 1, 4, 0x40, 1]" "[0x54, 0x49, 0x54, 0x32, 0, 0, 1, 4, 0x40, 1]"
      "\<lambda>_. True" "[0x61]"]
    version_dispatch [of "after (\<lambda>_. True) (start True) v24_header"
      "[0x54, 0x49, 0x54, 0x32, 0, 0, 2, 1, 0x40, 1]" "[0x54, 0x49, 0x54, 0x32, 0, 0, 2, 1, 0x40, 1]"
      "\<lambda>_. True" "[0x61]"]
  by (simp add: after_v22_header after_v23_header after_v23_header_more after_v24_header) blast

subsection \<open>A frame of size zero\<close>

lemma read_frame_data_complete:
  assumes "frame_size (current_frame (parser m)) \<le> data_read (current_frame (parser m))"
  shows "read_frame_data m rest = Break (end_frame m) rest"
proof -
  have "frame_data_loop (parser m) (mem m) rest = (parser m, mem m, rest)"
    using assms by (intro frame_data_loop_stop) auto
  then show ?thesis using assms by (simp add: read_frame_data_def end_frame_def Let_def)
qed

lemma zero_size_decoded:
  assumes "buffer p = H @ t" "length H = frame_header_size p"
    and "if 3 \<le> version p then H ! 4 = 0 \<and> H ! 5 = 0 \<and> H ! 6 = 0 \<and> H ! 7 = 0
         else H ! 3 = 0 \<and> H ! 4 = 0 \<and> H ! 5 = 0"
  shows "frame_size (current_frame (parse_frame_header p)) = 0"
  using assms
  by (auto simp: parse_frame_header_def Let_def frame_header_size_def nth_append
      synchsafe_to_uint32_def bytes_to_uint32_def split: if_splits)

lemma begin_frame_heap:
  assumes "\<And>n. fits n"
    and "frame_size (current_frame (parse_frame_header (advance_header hdr (parser m)))) = 0"
  shows "peek (mem (begin_frame fits m hdr))
           (frame_data (current_frame (parser (begin_frame fits m hdr)))) = []"
  using assms by (simp add: begin_frame_def Let_def malloc_def peek_def)

lemma end_frame_fields:
  "state (parser (end_frame m)) = STATE_READ_FRAME_HEADER"
  "buf_pos (parser (end_frame m)) = 0"
  "bytes_processed (parser (end_frame m)) = bytes_processed (parser m)"
  "frame_data (current_frame (parser (end_frame m))) = None"
  "frame_id (current_frame (parser (end_frame m))) = frame_id (current_frame (parser m))"
  "frame_callback (parser m) \<Longrightarrow>
     calls (end_frame m) = calls m @ [\<lparr>call_id = frame_id (current_frame (parser m)),
        call_data = peek (mem m) (frame_data (current_frame (parser m))),
        call_size = frame_size (current_frame (parser m))\<rparr>]"
  by (simp_all add: end_frame_def Let_def)

text \<open>
  C8, as the claim states it, fails: the chunk that ends with the header of a frame of
  size 0 leaves the parser in \<^verbatim>\<open>STATE_READ_FRAME_DATA\<close> with no callback invoked; the loop
  of line 40 runs only while the chunk has a byte left.
\<close>

theorem zero_size_frame_deferred:
  "map_option (\<lambda>(r, m). (r, state (parser m), calls m))
     (id3_parser_feed (\<lambda>_. True) (start True) zero_size_tag)
   = Some (0, STATE_READ_FRAME_DATA, [])"
  by code_simp

text \<open>
  C8, amended. Let a call bring the last bytes \<open>hdr\<close> of a frame header whose first byte
  is not zero and whose size bytes are all zero, with a callback registered and the
  allocation succeeding. If the chunk ends with the header, the call returns 0 in
  \<^verbatim>\<open>STATE_READ_FRAME_DATA\<close> (\<open>m1\<close>) without a callback, and the next call with a
  non-empty chunk starts by completing the frame. If bytes follow the header in the
  chunk, the frame is completed in the same call. Completing the frame (\<open>m2\<close>) is one
  callback with the id of the frame, an empty payload and size 0, after which the
  parser is in \<^verbatim>\<open>STATE_READ_FRAME_HEADER\<close> with an empty buffer, has counted the bytes of
  the header and no other, and has read none of the bytes that follow.
\<close>

theorem zero_size_frame:
  assumes st: "state (parser m) = STATE_READ_FRAME_HEADER"
    and len: "length (buffer (parser m)) = 10"
    and ne: "hdr \<noteq> []"
    and pos: "buf_pos (parser m) + length hdr = frame_header_size (parser m)"
    and bud: "length hdr \<le> budget (parser m)"
    and H: "H = take (buf_pos (parser m)) (buffer (parser m)) @ hdr"
    and nz: "H ! 0 \<noteq> 0"
    and size0: "if 3 \<le> version (parser m)
                then H ! 4 = 0 \<and> H ! 5 = 0 \<and> H ! 6 = 0 \<and> H ! 7 = 0
                else H ! 3 = 0 \<and> H ! 4 = 0 \<and> H ! 5 = 0"
    and fits: "\<And>n. fits n"
    and cb: "frame_callback (parser m)"
  shows "\<exists>m1 m2.
           (rest = [] \<longrightarrow> id3_parser_feed fits m (hdr @ rest) = Some (0, m1))
         \<and> state (parser m1) = STATE_READ_FRAME_DATA \<and> calls m1 = calls m
         \<and> (\<forall>d. d \<noteq> [] \<longrightarrow> id3_parser_feed fits m1 d = id3_parser_feed fits m2 d)
         \<and> (rest \<noteq> [] \<longrightarrow> id3_parser_feed fits m (hdr @ rest) = id3_parser_feed fits m2 rest)
         \<and> calls m2 = calls m @ [\<lparr>call_id = frame_id (current_frame (parser m2)),
                                   call_data = [], call_size = 0\<rparr>]
         \<and> take (if 3 \<le> version (parser m) then 4 else 3) (frame_id (current_frame (parser m2)))
             = take (if 3 \<le> version (parser m) then 4 else 3) H
         \<and> state (parser m2) = STATE_READ_FRAME_HEADER \<and> buf_pos (parser m2) = 0
         \<and> bytes_processed (parser m2) = bytes_processed (parser m) + of_nat (length hdr)
         \<and> frame_data (current_frame (parser m2)) = None"
proof -
  let ?p = "advance_header hdr (parser m)"
  let ?m1 = "begin_frame fits m hdr"
  let ?m2 = "end_frame ?m1"
  have step1: "switch fits m (hdr @ d) = Break ?m1 d" for d
    using read_frame_header_frame [OF st len ne pos bud nz [unfolded H] fits] st
    by (simp add: switch_def)
  have buf: "buffer ?p = H @ drop (frame_header_size (parser m)) (buffer (parser m))"
    unfolding H using len pos by (rule buffer_after_header)
  have hs: "frame_header_size (parser m) \<le> 10" by (simp add: frame_header_size_def)
  have lenH: "length H = frame_header_size ?p"
    using pos hs len by (simp add: H advance_header_def frame_header_size_def)
  have ver: "version ?p = version (parser m)" by (simp add: advance_header_def)
  have sz: "frame_size (current_frame (parse_frame_header ?p)) = 0"
    using buf lenH size0 [folded ver] by (rule zero_size_decoded)
  then have sz1: "frame_size (current_frame (parser ?m1)) = 0"
    by (simp add: begin_frame_fields)
  have st1: "state (parser ?m1) = STATE_READ_FRAME_DATA" by (simp add: begin_frame_fields)
  have step2: "switch fits ?m1 d = Break ?m2 d" for d
    using read_frame_data_complete [of ?m1 d] sz1 st1 by (simp add: switch_def)
  have loop1: "feed_loop fits m (hdr @ d) = feed_loop fits ?m1 d" for d
    using step1 [of d] st ne by (subst feed_loop.simps) simp
  have loop2: "d \<noteq> [] \<Longrightarrow> feed_loop fits ?m1 d = feed_loop fits ?m2 d" for d
    using step2 [of d] st1 by (subst feed_loop.simps) simp
  have a: "rest = [] \<longrightarrow> id3_parser_feed fits m (hdr @ rest) = Some (0, ?m1)"
    using loop1 [of "[]"] by (simp add: id3_parser_feed_def feed_loop.simps [of _ _ "[]"])
  have b: "\<forall>d. d \<noteq> [] \<longrightarrow> id3_parser_feed fits ?m1 d = id3_parser_feed fits ?m2 d"
    using loop2 by (simp add: id3_parser_feed_def)
  have c: "rest \<noteq> [] \<longrightarrow> id3_parser_feed fits m (hdr @ rest) = id3_parser_feed fits ?m2 rest"
    using loop1 [of rest] loop2 [of rest] by (simp add: id3_parser_feed_def)
  have cb1: "frame_callback (parser ?m1)" using cb by (simp add: begin_frame_fields)
  have d: "calls ?m2 = calls m @ [\<lparr>call_id = frame_id (current_frame (parser ?m2)),
                                   call_data = [], call_size = 0\<rparr>]"
    using begin_frame_heap [OF fits sz] sz1
    by (simp add: end_frame_fields(6) [OF cb1] end_frame_fields(5) begin_frame_fields)
  have idl: "frame_id (current_frame (parser ?m2)) = frame_id (current_frame (parse_frame_header ?p))"
    by (simp add: end_frame_fields begin_frame_fields)
  have e: "take (if 3 \<le> version (parser m) then 4 else 3) (frame_id (current_frame (parser ?m2)))
             = take (if 3 \<le> version (parser m) then 4 else 3) H"
    using buf lenH ver unfolding idl
    by (auto simp: parse_frame_header_def Let_def frame_header_size_def split: if_splits)
  have f: "state (parser ?m1) = STATE_READ_FRAME_DATA" "calls ?m1 = calls m"
    "state (parser ?m2) = STATE_READ_FRAME_HEADER" "buf_pos (parser ?m2) = 0"
    "bytes_processed (parser ?m2) = bytes_processed (parser m) + of_nat (length hdr)"
    "frame_data (current_frame (parser ?m2)) = None"
    by (simp_all add: end_frame_fields begin_frame_fields)
  from a b c d e f show ?thesis
    by (intro exI [of _ ?m1] exI [of _ ?m2]) (intro conjI; assumption)
qed

theorem zero_size_frame_witness:
  "(\<exists>m1 m2.
       id3_parser_feed (\<lambda>_. True) (after (\<lambda>_. True) (start True) v23_header)
         [0x54, 0x49, 0x54, 0x32, 0, 0, 0, 0, 0, 0] = Some (0, m1)
     \<and> state (parser m1) = STATE_READ_FRAME_DATA \<and> calls m1 = []
     \<and> id3_parser_feed (\<lambda>_. True) m1 [0x41] = id3_parser_feed (\<lambda>_. True) m2 [0x41]
     \<and> calls m2 = [\<lparr>call_id = frame_id (current_frame (parser m2)), call_data = [], call_size = 0\<rparr>]
     \<and> take 4 (frame_id (current_frame (parser m2))) = [0x54, 0x49, 0x54, 0x32]
     \<and> state (parser m2) = STATE_READ_FRAME_HEADER \<and> buf_pos (parser m2) = 0
     \<and> bytes_processed (parser m2) = 10
     \<and> frame_data (current_frame (parser m2)) = None)
   \<and> (\<exists>m2.
       id3_parser_feed (\<lambda>_. True) (after (\<lambda>_. True) (start True) v23_header)
         ([0x54, 0x49, 0x54, 0x32, 0, 0, 0, 0, 0, 0] @ [0x41]) = id3_parser_feed (\<lambda>_. True) m2 [0x41]
     \<and> calls m2 = [\<lparr>call_id = frame_id (current_frame (parser m2)), call_data = [], call_size = 0\<rparr>]
     \<and> take 4 (frame_id (current_frame (parser m2))) = [0x54, 0x49, 0x54, 0x32]
     \<and> state (parser m2) = STATE_READ_FRAME_HEADER \<and> buf_pos (parser m2) = 0
     \<and> bytes_processed (parser m2) = 10
     \<and> frame_data (current_frame (parser m2)) = None)"
  using zero_size_frame [of "after (\<lambda>_. True) (start True) v23_header"
      "[0x54, 0x49, 0x54, 0x32, 0, 0, 0, 0, 0, 0]" "[0x54, 0x49, 0x54, 0x32, 0, 0, 0, 0, 0, 0]"
      "\<lambda>_. True" "[]"]
    zero_size_frame [of "after (\<lambda>_. True) (start True) v23_header"
      "[0x54, 0x49, 0x54, 0x32, 0, 0, 0, 0, 0, 0]" "[0x54, 0x49, 0x54, 0x32, 0, 0, 0, 0, 0, 0]"
      "\<lambda>_. True" "[0x41]"]
  by (simp add: after_v23_header after_v23_header_more) blast

subsection \<open>The extended header\<close>

lemma ext_size_loop_stop:
  "\<not> (buf_pos p < 4 \<and> bytes_processed p < tag_size p) \<Longrightarrow> ext_size_loop p rest = (p, rest)"
  by (cases rest) auto

lemma ext_size_loop_prefix:
  "buf_pos p + length xs \<le> 4 \<Longrightarrow> length xs \<le> budget p
   \<Longrightarrow> ext_size_loop p (xs @ ys) = ext_size_loop (advance_header xs p) ys"
proof (induction xs arbitrary: p)
  case Nil
  then show ?case by (simp add: advance_header_Nil)
next
  case (Cons b xs)
  let ?p = "p\<lparr>buffer := (buffer p)[buf_pos p := b], buf_pos := Suc (buf_pos p),
                bytes_processed := bytes_processed p + 1\<rparr>"
  from Cons.prems have lt: "bytes_processed p < tag_size p" "buf_pos p < 4"
    by (auto simp: word_less_nat_alt budget_def)
  then have "budget ?p = budget p - 1"
    by (simp add: budget_def word_inc_unat)
  with Cons.prems have "ext_size_loop ?p (xs @ ys) = ext_size_loop (advance_header xs ?p) ys"
    by (intro Cons.IH) auto
  then show ?case using lt by (simp add: advance_header_Cons)
qed

lemma ext_skip_loop_stop:
  "\<not> (ext_bytes_read p < ext_header_size p \<and> bytes_processed p < tag_size p)
   \<Longrightarrow> ext_skip_loop p rest = (p, rest)"
  by (cases rest) auto

lemma advance_skip_0: "advance_skip 0 p = p"
  by (simp add: advance_skip_def)

lemma advance_skip_Suc:
  "advance_skip n (p\<lparr>ext_bytes_read := ext_bytes_read p + 1,
                     bytes_processed := bytes_processed p + 1\<rparr>) = advance_skip (Suc n) p"
  by (simp add: advance_skip_def add.assoc)

lemma ext_skip_loop_prefix:
  "length xs \<le> unat (ext_header_size p) - unat (ext_bytes_read p) \<Longrightarrow> length xs \<le> budget p
   \<Longrightarrow> ext_skip_loop p (xs @ ys) = ext_skip_loop (advance_skip (length xs) p) ys"
proof (induction xs arbitrary: p)
  case Nil
  then show ?case by (simp add: advance_skip_0)
next
  case (Cons b xs)
  let ?p = "p\<lparr>ext_bytes_read := ext_bytes_read p + 1,
                bytes_processed := bytes_processed p + 1\<rparr>"
  from Cons.prems have lt: "bytes_processed p < tag_size p" "ext_bytes_read p < ext_header_size p"
    by (auto simp: word_less_nat_alt budget_def)
  then have "budget ?p = budget p - 1"
    "unat (ext_header_size ?p) - unat (ext_bytes_read ?p)
       = unat (ext_header_size p) - unat (ext_bytes_read p) - 1"
    by (simp_all add: budget_def word_inc_unat)
  with Cons.prems have "ext_skip_loop ?p (xs @ ys) = ext_skip_loop (advance_skip (length xs) ?p) ys"
    by (intro Cons.IH) auto
  then show ?case using lt by (simp add: advance_skip_Suc)
qed

lemma decode_prefix:
  "4 \<le> length sz \<Longrightarrow> synchsafe_to_uint32 (sz @ t) = synchsafe_to_uint32 sz"
  "4 \<le> length sz \<Longrightarrow> bytes_to_uint32 (sz @ t) = bytes_to_uint32 sz"
  by (auto simp: synchsafe_to_uint32_def bytes_to_uint32_def nth_append)

text \<open>
  C4, as the claim states it, fails: with a decoded size of 6 the parser is in
  \<^verbatim>\<open>STATE_READ_FRAME_HEADER\<close> after the size field and two more bytes, not six:
  line 96 starts \<^verbatim>\<open>ext_bytes_read\<close> at 4, so the size counts its own four bytes.
\<close>

theorem ext_header_two_bytes_skipped:
  "map_option (\<lambda>(r, m). (state (parser m), buf_pos (parser m), ext_header_size (parser m),
       bytes_processed (parser m)))
     (id3_parser_feed (\<lambda>_. True) (start True) ext_tag)
   = Some (STATE_READ_FRAME_HEADER, 0, 6, 6)"
  by code_simp

text \<open>
  C4, amended. When the parser enters \<^verbatim>\<open>STATE_READ_EXT_HEADER\<close> and one chunk brings the
  four bytes \<open>sz\<close> of the size field and the bytes after them, within the budget of the
  tag, the size \<open>E\<close> is decoded from \<open>sz\<close> (synchsafe for version 4, plain big-endian
  otherwise) and the parser discards \<open>E - 4\<close> further bytes (none when \<open>E \<le> 4\<close>), then is
  in \<^verbatim>\<open>STATE_READ_FRAME_HEADER\<close> with an empty buffer and the rest of the chunk unread.
\<close>

theorem ext_header_skip:
  assumes st: "state (parser m) = STATE_READ_EXT_HEADER"
    and len: "length (buffer (parser m)) = 10"
    and pos: "buf_pos (parser m) = 0"
    and sz: "length sz = 4"
    and E: "E = (if version (parser m) = 4 then synchsafe_to_uint32 sz else bytes_to_uint32 sz)"
    and skip: "length skip = unat E - 4"
    and bud: "4 + length skip \<le> budget (parser m)"
  shows "\<exists>m'. switch fits m (sz @ skip @ rest) = Break m' rest
           \<and> state (parser m') = STATE_READ_FRAME_HEADER \<and> buf_pos (parser m') = 0
           \<and> ext_header_size (parser m') = E
           \<and> budget (parser m') = budget (parser m) - (4 + length skip)
           \<and> calls m' = calls m \<and> mem m' = mem m"
proof -
  let ?p0 = "advance_header sz (parser m)"
  let ?p1 = "?p0\<lparr>ext_header_size := E, ext_bytes_read := 4\<rparr>"
  let ?p2 = "advance_skip (length skip) ?p1"
  let ?m = "m\<lparr>parser := ?p2\<lparr>state := STATE_READ_FRAME_HEADER, buf_pos := 0\<rparr>\<rparr>"
  have b0: "budget ?p0 = budget (parser m) - 4"
    using budget_advance_header [of sz "parser m"] bud sz by simp
  have "ext_size_loop (parser m) (sz @ (skip @ rest)) = ext_size_loop ?p0 (skip @ rest)"
    using pos sz bud by (intro ext_size_loop_prefix) auto
  moreover have "ext_size_loop ?p0 (skip @ rest) = (?p0, skip @ rest)"
    using pos sz by (intro ext_size_loop_stop) (simp add: advance_header_def)
  ultimately have l1: "ext_size_loop (parser m) (sz @ skip @ rest) = (?p0, skip @ rest)" by simp
  have bp: "buf_pos ?p0 = 4" using pos sz by (simp add: advance_header_def)
  have buf: "buffer ?p0 = sz @ drop 4 (buffer (parser m))"
    using pos sz len by (simp add: advance_header_def store_bytes_eq)
  have dec: "(if version ?p0 = 4 then synchsafe_to_uint32 (buffer ?p0)
              else bytes_to_uint32 (buffer ?p0)) = E"
    using sz unfolding buf E by (simp add: decode_prefix advance_header_def)
  have b1: "budget ?p1 = budget (parser m) - 4" using b0 by (simp add: budget_def)
  have "ext_skip_loop ?p1 (skip @ rest) = ext_skip_loop ?p2 rest"
    using skip bud b1 by (intro ext_skip_loop_prefix) auto
  moreover have u: "unat (ext_bytes_read ?p2) = 4 + length skip"
    using word_add_of_nat_unat [of "length skip" E 4] skip by (simp add: advance_skip_def)
  then have done_: "ext_header_size ?p2 \<le> ext_bytes_read ?p2"
    using skip by (simp add: word_le_nat_alt advance_skip_def)
  then have "ext_skip_loop ?p2 rest = (?p2, rest)"
    by (intro ext_skip_loop_stop) auto
  ultimately have l2: "ext_skip_loop ?p1 (skip @ rest) = (?p2, rest)" by simp
  have step: "read_ext_header m (sz @ skip @ rest) = Break ?m rest"
    using l1 bp dec l2 done_ by (simp add: read_ext_header_def)
  have "budget ?p2 = budget ?p1 - length skip"
    using word_add_of_nat_unat [of "length skip" "tag_size ?p1" "bytes_processed ?p1"] bud b1
    by (simp add: budget_def advance_skip_def)
  with b1 have b2: "budget (parser ?m) = budget (parser m) - (4 + length skip)"
    by (simp add: budget_def)
  have e: "ext_header_size (parser ?m) = E" by (simp add: advance_skip_def)
  from step st b2 e show ?thesis
    by (intro exI [of _ ?m]) (simp add: switch_def)
qed

lemma v24_ext_header_run:
  "map_option (\<lambda>(r, m). (r, state (parser m), length (buffer (parser m)), buf_pos (parser m),
       budget (parser m), version (parser m), calls m))
     (id3_parser_feed (\<lambda>_. True) (start True) v24_ext_header)
   = Some (0, STATE_READ_EXT_HEADER, 10, 0, 30, 4, [])"
  by code_simp

lemma after_v24_ext_header:
  "state (parser (after (\<lambda>_. True) (start True) v24_ext_header)) = STATE_READ_EXT_HEADER"
  "length (buffer (parser (after (\<lambda>_. True) (start True) v24_ext_header))) = 10"
  "buf_pos (parser (after (\<lambda>_. True) (start True) v24_ext_header)) = 0"
  "budget (parser (after (\<lambda>_. True) (start True) v24_ext_header)) = 30"
  "version (parser (after (\<lambda>_. True) (start True) v24_ext_header)) = 4"
  "calls (after (\<lambda>_. True) (start True) v24_ext_header) = []"
  using v24_ext_header_run by (auto simp: after_def split: option.splits)

lemma synchsafe_six: "synchsafe_to_uint32 [0, 0, 0, 6] = 6"
  by (simp add: synchsafe_to_uint32_def)

theorem ext_header_skip_witness:
  "\<exists>m'. switch (\<lambda>_. True) (after (\<lambda>_. True) (start True) v24_ext_header)
            ([0, 0, 0, 6] @ [1, 2] @ [0x54, 0x49]) = Break m' [0x54, 0x49]
       \<and> state (parser m') = STATE_READ_FRAME_HEADER \<and> buf_pos (parser m') = 0
       \<and> ext_header_size (parser m') = 6
       \<and> budget (parser m') = 24
       \<and> calls m' = [] \<and> mem m' = mem (after (\<lambda>_. True) (start True) v24_ext_header)"
  using ext_header_skip [of "after (\<lambda>_. True) (start True) v24_ext_header"
      "[0, 0, 0, 6]" 6 "[1, 2]" "\<lambda>_. True" "[0x54, 0x49]"]
  by (simp add: after_v24_ext_header synchsafe_six)

subsection \<open>The payload buffer on the heap\<close>

lemma read_header_loop_keeps:
  "read_header_loop p rest = (p', rest') \<Longrightarrow>
   current_frame p' = current_frame p \<and> state p' = state p"
  by (induction p rest rule: read_header_loop.induct) (auto split: if_splits)

lemma ext_size_loop_keeps:
  "ext_size_loop p rest = (p', rest') \<Longrightarrow>
   current_frame p' = current_frame p \<and> state p' = state p"
  by (induction p rest rule: ext_size_loop.induct) (auto split: if_splits)

lemma ext_skip_loop_keeps:
  "ext_skip_loop p rest = (p', rest') \<Longrightarrow>
   current_frame p' = current_frame p \<and> state p' = state p"
  by (induction p rest rule: ext_skip_loop.induct) (auto split: if_splits)

lemma frame_header_loop_keeps:
  "frame_header_loop hs p rest = (p', rest') \<Longrightarrow>
   current_frame p' = current_frame p \<and> state p' = state p"
  by (induction hs p rest rule: frame_header_loop.induct) (auto split: if_splits)

lemma find_header_heap_ok:
  "heap_ok m \<Longrightarrow> state (parser m) = STATE_FIND_HEADER \<Longrightarrow> heap_ok (machine_of (find_header m rest))"
  by (auto simp: heap_ok_def find_header_def Let_def split: option.splits)

lemma read_header_heap_ok:
  assumes "heap_ok m" "state (parser m) = STATE_READ_HEADER"
  shows "heap_ok (machine_of (read_header m rest))"
proof -
  obtain p rest' where l: "read_header_loop (parser m) rest = (p, rest')" by force
  from read_header_loop_keeps [OF l] assms show ?thesis
    by (auto simp: heap_ok_def read_header_def l Let_def split: option.splits)
qed

lemma read_ext_header_heap_ok:
  assumes "heap_ok m" "state (parser m) = STATE_READ_EXT_HEADER"
  shows "heap_ok (machine_of (read_ext_header m rest))"
proof -
  obtain p rest1 where l1: "ext_size_loop (parser m) rest = (p, rest1)" by force
  define q where "q = (if buf_pos p = 4
               then p\<lparr>ext_header_size :=
                        (if version p = 4 then synchsafe_to_uint32 (buffer p)
                         else bytes_to_uint32 (buffer p)),
                      ext_bytes_read := 4\<rparr>
               else p)"
  obtain p2 rest2 where l2: "ext_skip_loop q rest1 = (p2, rest2)" by force
  have "current_frame q = current_frame (parser m)" "state q = state (parser m)"
    using ext_size_loop_keeps [OF l1] by (simp_all add: q_def)
  with ext_skip_loop_keeps [OF l2]
  have k: "current_frame p2 = current_frame (parser m)" "state p2 = state (parser m)" by simp_all
  have "read_ext_header m rest =
      (if ext_header_size p2 \<le> ext_bytes_read p2
         then Break (m\<lparr>parser := p2\<lparr>state := STATE_READ_FRAME_HEADER, buf_pos := 0\<rparr>\<rparr>) rest2
         else Break (m\<lparr>parser := p2\<rparr>) rest2)"
    using l1 l2 unfolding q_def by (simp add: read_ext_header_def Let_def)
  with k assms show ?thesis
    by (auto simp: heap_ok_def split: option.splits)
qed

lemma parse_frame_header_keeps:
  "frame_data (current_frame (parse_frame_header p)) = frame_data (current_frame p)"
  "state (parse_frame_header p) = state p"
  by (simp_all add: parse_frame_header_def Let_def)

lemma read_frame_header_heap_ok:
  assumes "heap_ok m" "state (parser m) = STATE_READ_FRAME_HEADER"
  shows "heap_ok (machine_of (read_frame_header fits m rest))"
proof -
  obtain p rest' where l: "frame_header_loop (frame_header_size (parser m)) (parser m) rest = (p, rest')"
    by force
  from assms have empty: "\<forall>x. store (mem m) x = None" "faults (mem m) = 0"
    "frame_data (current_frame (parser m)) = None"
    by (auto simp: heap_ok_def split: option.splits)
  from frame_header_loop_keeps [OF l]
  have k: "current_frame p = current_frame (parser m)" "state p = state (parser m)" by simp_all
  show ?thesis
    using empty k assms(2)
    by (auto simp: heap_ok_def read_frame_header_def l Let_def malloc_def parse_frame_header_keeps
        split: option.splits prod.splits)
qed

lemma frame_data_loop_heap:
  "frame_data_loop p h rest = (p', h', rest') \<Longrightarrow>
   frame_data (current_frame p) = Some a \<Longrightarrow>
   store h a = Some bs \<Longrightarrow> length bs = unat (frame_size (current_frame p)) \<Longrightarrow>
   faults h' = faults h \<and> state p' = state p
   \<and> frame_data (current_frame p') = Some a
   \<and> frame_size (current_frame p') = frame_size (current_frame p)
   \<and> frame_callback p' = frame_callback p
   \<and> (\<exists>bs'. store h' a = Some bs' \<and> length bs' = length bs)
   \<and> (\<forall>x. x \<noteq> a \<longrightarrow> store h' x = store h x)"
proof (induction p h rest arbitrary: bs rule: frame_data_loop.induct)
  case (1 p h)
  then show ?case by auto
next
  case (2 p h b rest)
  show ?case
  proof (cases "data_read (current_frame p) < frame_size (current_frame p)
         \<and> bytes_processed p < tag_size p")
    case False
    with 2 show ?thesis by auto
  next
    case True
    let ?p = "p\<lparr>current_frame := (current_frame p)
                    \<lparr>data_read := data_read (current_frame p) + 1\<rparr>,
                bytes_processed := bytes_processed p + 1\<rparr>"
    let ?h = "poke h (frame_data (current_frame p)) (unat (data_read (current_frame p))) b"
    from True have "unat (data_read (current_frame p)) < length bs"
      using "2.prems"(4) by (simp add: word_less_nat_alt)
    then have h: "?h = h\<lparr>store := (store h)(a \<mapsto> bs[unat (data_read (current_frame p)) := b])\<rparr>"
      using "2.prems"(2,3) by (simp add: poke_def)
    have run: "frame_data_loop ?p ?h rest = (p', h', rest')"
      using "2.prems"(1) True by simp
    have "faults h' = faults ?h \<and> state p' = state ?p
        \<and> frame_data (current_frame p') = Some a
        \<and> frame_size (current_frame p') = frame_size (current_frame ?p)
        \<and> frame_callback p' = frame_callback ?p
        \<and> (\<exists>bs'. store h' a = Some bs'
               \<and> length bs' = length (bs[unat (data_read (current_frame p)) := b]))
        \<and> (\<forall>x. x \<noteq> a \<longrightarrow> store h' x = store ?h x)"
      using True "2.prems"(2,4) h
      by (intro "2.IH" [OF True run]) simp_all
    then show ?thesis using h by simp
  qed
qed

lemma read_frame_data_heap_ok:
  assumes "heap_ok m" "state (parser m) = STATE_READ_FRAME_DATA"
  shows "heap_ok (machine_of (read_frame_data m rest))"
proof -
  from assms obtain a bs where a: "frame_data (current_frame (parser m)) = Some a"
    and s: "store (mem m) a = Some bs" "\<forall>x. x \<noteq> a \<longrightarrow> store (mem m) x = None"
    and n: "length bs = unat (frame_size (current_frame (parser m)))"
    and f: "faults (mem m) = 0"
    by (auto simp: heap_ok_def split: option.splits)
  obtain p h rest' where l: "frame_data_loop (parser m) (mem m) rest = (p, h, rest')"
    by (metis prod_cases3)
  from frame_data_loop_heap [OF l a s(1) n] obtain bs' where
    k: "faults h = 0" "state p = STATE_READ_FRAME_DATA" "frame_data (current_frame p) = Some a"
       "frame_size (current_frame p) = frame_size (current_frame (parser m))"
       "store h a = Some bs'" "length bs' = length bs" "\<forall>x. x \<noteq> a \<longrightarrow> store h x = None"
    using f assms(2) s(2) by auto
  show ?thesis using k n
    by (auto simp: heap_ok_def read_frame_data_def l Let_def free_def)
qed

lemma switch_heap_ok:
  "heap_ok m \<Longrightarrow> state (parser m) \<noteq> STATE_DONE \<Longrightarrow> heap_ok (machine_of (switch fits m rest))"
  by (cases "state (parser m)")
    (simp_all add: switch_def find_header_heap_ok read_header_heap_ok read_ext_header_heap_ok
      read_frame_header_heap_ok read_frame_data_heap_ok)

lemma feed_loop_heap_ok:
  assumes "feed_loop fits m rest = Some (r, m')" "heap_ok m"
  shows "heap_ok m'"
proof -
  have "heap_ok m \<longrightarrow> heap_ok (snd (r, m'))"
  proof (rule feed_loop.raw_induct
      [where P = "\<lambda>fits m rest y. heap_ok m \<longrightarrow> heap_ok (snd y)", OF _ assms(1)])
    fix loop fits m rest and y :: "int \<times> machine"
    assume IH: "\<And>fits m rest y. loop fits m rest = Some y \<Longrightarrow> heap_ok m \<longrightarrow> heap_ok (snd y)"
      and body: "(if rest \<noteq> [] \<and> state (parser m) \<noteq> STATE_DONE
          then case switch fits m rest of
                 Break m' rest' \<Rightarrow> loop fits m' rest'
               | Return r m' \<Rightarrow> Some (r, m')
          else Some (0, m)) = Some y"
    show "heap_ok m \<longrightarrow> heap_ok (snd y)"
    proof
      assume ok: "heap_ok m"
      show "heap_ok (snd y)"
      proof (cases "rest \<noteq> [] \<and> state (parser m) \<noteq> STATE_DONE")
        case False
        with body ok show ?thesis by auto
      next
        case True
        with ok have s: "heap_ok (machine_of (switch fits m rest))" by (simp add: switch_heap_ok)
        show ?thesis
        proof (cases "switch fits m rest")
          case (Break m1 rest1)
          with body True have "loop fits m1 rest1 = Some y" by simp
          from IH [OF this] s Break show ?thesis by simp
        next
          case (Return r1 m1)
          with body True s show ?thesis by auto
        qed
      qed
    qed
  qed
  with assms(2) show ?thesis by simp
qed

lemma start_heap_ok: "heap_ok (start callback)"
  by (simp add: heap_ok_def start_def id3_parser_init_def zero_frame_def empty_heap_def)

lemma feed_chunks_heap_ok:
  "feed_chunks fits m chunks = Some m' \<Longrightarrow> heap_ok m \<Longrightarrow> heap_ok m'"
proof (induction chunks arbitrary: m)
  case Nil
  then show ?case by simp
next
  case (Cons c cs)
  then obtain r m1 where f: "id3_parser_feed fits m c = Some (r, m1)"
    and rest: "feed_chunks fits m1 cs = Some m'"
    by (auto split: option.splits)
  from f Cons.prems(2) have "heap_ok m1"
    by (auto simp: id3_parser_feed_def intro: feed_loop_heap_ok)
  with rest show ?case by (rule Cons.IH)
qed

text \<open>
  C9. After any sequence of calls of \<^verbatim>\<open>id3_parser_feed\<close> on a fresh parser that have
  returned, \<^verbatim>\<open>id3_parser_cleanup\<close> leaves no block live on the heap, has caused no
  undefined access (no block is freed twice), and leaves the data pointer \<^verbatim>\<open>NULL\<close>; a
  second cleanup changes nothing. While a frame is in flight the data pointer holds the
  one live block, of the declared size, which cleanup releases; at any other time
  (a frame completed and released after its callback, or none begun) the heap holds no
  block and cleanup changes nothing.
\<close>

theorem cleanup_safety:
  assumes "feed_chunks fits (start callback) chunks = Some m"
  shows "(\<forall>a. store (mem (id3_parser_cleanup m)) a = None)
       \<and> faults (mem (id3_parser_cleanup m)) = 0
       \<and> frame_data (current_frame (parser (id3_parser_cleanup m))) = None
       \<and> id3_parser_cleanup (id3_parser_cleanup m) = id3_parser_cleanup m
       \<and> (state (parser m) = STATE_READ_FRAME_DATA \<longrightarrow>
            (\<exists>a bs. frame_data (current_frame (parser m)) = Some a
                \<and> store (mem m) a = Some bs
                \<and> length bs = unat (frame_size (current_frame (parser m)))))
       \<and> (state (parser m) \<noteq> STATE_READ_FRAME_DATA \<longrightarrow>
            id3_parser_cleanup m = m \<and> (\<forall>a. store (mem m) a = None))"
proof -
  have "heap_ok m" using assms start_heap_ok by (rule feed_chunks_heap_ok)
  then show ?thesis
    by (auto simp: heap_ok_def id3_parser_cleanup_def free_def split: option.splits)
qed

lemma oversize_tag_chunks:
  "map_option (\<lambda>m. (state (parser m), frame_size (current_frame (parser m))))
     (feed_chunks (\<lambda>_. True) (start True) [take 15 oversize_tag, drop 15 oversize_tag])
   = Some (STATE_READ_FRAME_DATA, 5)"
  by code_simp

lemma tit2_tag_chunks:
  "map_option (\<lambda>m. state (parser m))
     (feed_chunks (\<lambda>_. True) (start True) [take 22 tit2_tag, drop 22 tit2_tag])
   = Some STATE_DONE"
  by code_simp

theorem cleanup_safety_witness:
  "(\<exists>m a bs. feed_chunks (\<lambda>_. True) (start True) [take 15 oversize_tag, drop 15 oversize_tag] = Some m
       \<and> state (parser m) = STATE_READ_FRAME_DATA
       \<and> frame_data (current_frame (parser m)) = Some a
       \<and> store (mem m) a = Some bs \<and> length bs = 5
       \<and> (\<forall>x. store (mem (id3_parser_cleanup m)) x = None)
       \<and> faults (mem (id3_parser_cleanup m)) = 0
       \<and> frame_data (current_frame (parser (id3_parser_cleanup m))) = None
       \<and> id3_parser_cleanup (id3_parser_cleanup m) = id3_parser_cleanup m)
   \<and> (\<exists>m. feed_chunks (\<lambda>_. True) (start True) [take 22 tit2_tag, drop 22 tit2_tag] = Some m
       \<and> state (parser m) = STATE_DONE
       \<and> id3_parser_cleanup m = m
       \<and> (\<forall>x. store (mem m) x = None) \<and> faults (mem m) = 0)"
proof -
  from oversize_tag_chunks obtain m1 where
    m1: "feed_chunks (\<lambda>_. True) (start True) [take 15 oversize_tag, drop 15 oversize_tag] = Some m1"
    and s1: "state (parser m1) = STATE_READ_FRAME_DATA" "frame_size (current_frame (parser m1)) = 5"
    by auto
  from tit2_tag_chunks obtain m2 where
    m2: "feed_chunks (\<lambda>_. True) (start True) [take 22 tit2_tag, drop 22 tit2_tag] = Some m2"
    and s2: "state (parser m2) = STATE_DONE"
    by auto
  from cleanup_safety [OF m1] s1 have a: "\<exists>m a bs.
      feed_chunks (\<lambda>_. True) (start True) [take 15 oversize_tag, drop 15 oversize_tag] = Some m
       \<and> state (parser m) = STATE_READ_FRAME_DATA
       \<and> frame_data (current_frame (parser m)) = Some a
       \<and> store (mem m) a = Some bs \<and> length bs = 5
       \<and> (\<forall>x. store (mem (id3_parser_cleanup m)) x = None)
       \<and> faults (mem (id3_parser_cleanup m)) = 0
       \<and> frame_data (current_frame (parser (id3_parser_cleanup m))) = None
       \<and> id3_parser_cleanup (id3_parser_cleanup m) = id3_parser_cleanup m"
    using m1 by (intro exI [of _ m1]) auto
  from cleanup_safety [OF m2] s2 have b: "\<exists>m.
      feed_chunks (\<lambda>_. True) (start True) [take 22 tit2_tag, drop 22 tit2_tag] = Some m
       \<and> state (parser m) = STATE_DONE
       \<and> id3_parser_cleanup m = m
       \<and> (\<forall>x. store (mem m) x = None) \<and> faults (mem m) = 0"
    using m2 by (intro exI [of _ m2]) auto
  from a b show ?thesis by (rule conjI)
qed

subsection \<open>A chunk and its continuation\<close>

lemma frame_header_loop_more:
  "frame_header_loop hs p xs = (p', xs') \<Longrightarrow> xs' \<noteq> [] \<Longrightarrow>
   frame_header_loop hs p (xs @ ys) = (p', xs' @ ys)"
  by (induction hs p xs rule: frame_header_loop.induct) (auto split: if_splits)

lemma frame_header_loop_join:
  "frame_header_loop hs p xs = (p', []) \<Longrightarrow>
   frame_header_loop hs p (xs @ ys) = frame_header_loop hs p' ys"
  by (induction hs p xs rule: frame_header_loop.induct) (auto split: if_splits)

lemma frame_header_loop_progress:
  "frame_header_loop hs p xs = (p', xs') \<Longrightarrow>
   length xs' < length xs \<or> (xs' = xs \<and> p' = p)"
  by (induction hs p xs rule: frame_header_loop.induct) (auto split: if_splits)

lemma frame_header_loop_version:
  "frame_header_loop hs p xs = (p', xs') \<Longrightarrow> version p' = version p \<and> tag_size p' = tag_size p"
  by (induction hs p xs rule: frame_header_loop.induct) (auto split: if_splits)

lemma frame_data_loop_more:
  "frame_data_loop p h xs = (p', h', xs') \<Longrightarrow> xs' \<noteq> [] \<Longrightarrow>
   frame_data_loop p h (xs @ ys) = (p', h', xs' @ ys)"
  by (induction p h xs rule: frame_data_loop.induct) (auto split: if_splits)

lemma frame_data_loop_join:
  "frame_data_loop p h xs = (p', h', []) \<Longrightarrow>
   frame_data_loop p h (xs @ ys) = frame_data_loop p' h' ys"
  by (induction p h xs rule: frame_data_loop.induct) (auto split: if_splits)

lemma frame_data_loop_progress:
  "frame_data_loop p h xs = (p', h', xs') \<Longrightarrow>
   length xs' < length xs \<or> (xs' = xs \<and> p' = p \<and> h' = h)"
  by (induction p h xs rule: frame_data_loop.induct) (auto split: if_splits)

lemma read_frame_header_more:
  assumes r: "read_frame_header fits m xs = Break m' xs'" and ne: "xs' \<noteq> []"
  shows "read_frame_header fits m (xs @ ys) = Break m' (xs' @ ys)"
proof (cases "tag_size (parser m) \<le> bytes_processed (parser m)")
  case True
  with r show ?thesis by (simp add: read_frame_header_def)
next
  case False
  obtain p rest where l: "frame_header_loop (frame_header_size (parser m)) (parser m) xs = (p, rest)"
    by force
  from r False l have rest: "rest = xs'"
    by (auto simp: read_frame_header_def Let_def split: if_splits prod.splits)
  with l ne have "frame_header_loop (frame_header_size (parser m)) (parser m) (xs @ ys) = (p, xs' @ ys)"
    by (simp add: frame_header_loop_more)
  with r False l rest show ?thesis
    by (auto simp: read_frame_header_def Let_def split: if_splits prod.splits)
qed

lemma read_frame_header_join:
  assumes r: "read_frame_header fits m xs = Break m' []" and xs: "xs \<noteq> []"
    and st: "state (parser m) = STATE_READ_FRAME_HEADER"
  shows "read_frame_header fits m (xs @ ys) = Break m' ys
       \<or> (state (parser m') = STATE_READ_FRAME_HEADER
          \<and> read_frame_header fits m (xs @ ys) = read_frame_header fits m' ys)"
proof -
  from r xs have open_: "\<not> tag_size (parser m) \<le> bytes_processed (parser m)"
    by (auto simp: read_frame_header_def)
  let ?hs = "frame_header_size (parser m)"
  obtain p rest where l: "frame_header_loop ?hs (parser m) xs = (p, rest)"
    by force
  from r open_ l have rest: "rest = []"
    by (auto simp: read_frame_header_def Let_def split: if_splits prod.splits)
  with l have j: "frame_header_loop ?hs (parser m) (xs @ ys) = frame_header_loop ?hs p ys"
    by (simp add: frame_header_loop_join)
  from frame_header_loop_version [OF l] frame_header_loop_keeps [OF l]
  have k: "version p = version (parser m)" "tag_size p = tag_size (parser m)"
    "state p = state (parser m)" by simp_all
  show ?thesis
  proof (cases "buf_pos p = ?hs \<or> tag_size p \<le> bytes_processed p")
    case True
    then have "frame_header_loop ?hs p ys = (p, ys)"
      by (intro frame_header_loop_stop) auto
    with j have "frame_header_loop ?hs (parser m) (xs @ ys) = (p, ys)" by simp
    with r open_ l rest have "read_frame_header fits m (xs @ ys) = Break m' ys"
      by (auto simp: read_frame_header_def Let_def split: if_splits prod.splits)
    then show ?thesis ..
  next
    case False
    with r open_ l rest have m': "m' = m\<lparr>parser := p\<rparr>"
      by (auto simp: read_frame_header_def Let_def split: if_splits prod.splits)
    have "read_frame_header fits m (xs @ ys) = read_frame_header fits m' ys"
      using False open_ j k unfolding m'
      by (simp add: read_frame_header_def frame_header_size_def Let_def split: prod.splits)
    moreover have "state (parser m') = STATE_READ_FRAME_HEADER" using k st by (simp add: m')
    ultimately show ?thesis by simp
  qed
qed

lemma read_frame_data_more:
  assumes r: "read_frame_data m xs = Break m' xs'" and ne: "xs' \<noteq> []"
  shows "read_frame_data m (xs @ ys) = Break m' (xs' @ ys)"
proof -
  obtain p h rest where l: "frame_data_loop (parser m) (mem m) xs = (p, h, rest)"
    by (metis prod_cases3)
  from r l have rest: "rest = xs'"
    by (auto simp: read_frame_data_def Let_def split: if_splits)
  with l ne have "frame_data_loop (parser m) (mem m) (xs @ ys) = (p, h, xs' @ ys)"
    by (simp add: frame_data_loop_more)
  with r l rest show ?thesis
    by (auto simp: read_frame_data_def Let_def split: if_splits)
qed

lemma frame_data_loop_state:
  "frame_data_loop p h xs = (p', h', xs') \<Longrightarrow> state p' = state p"
  by (induction p h xs rule: frame_data_loop.induct) (auto split: if_splits)

lemma read_frame_data_join:
  assumes r: "read_frame_data m xs = Break m' []"
    and st: "state (parser m) = STATE_READ_FRAME_DATA"
  shows "read_frame_data m (xs @ ys) = Break m' ys
       \<or> (state (parser m') = STATE_READ_FRAME_DATA
          \<and> read_frame_data m (xs @ ys) = read_frame_data m' ys)"
proof -
  obtain p h rest where l: "frame_data_loop (parser m) (mem m) xs = (p, h, rest)"
    by (metis prod_cases3)
  from r l have rest: "rest = []"
    by (auto simp: read_frame_data_def Let_def split: if_splits)
  with l have j: "frame_data_loop (parser m) (mem m) (xs @ ys) = frame_data_loop p h ys"
    by (simp add: frame_data_loop_join)
  show ?thesis
  proof (cases "frame_size (current_frame p) \<le> data_read (current_frame p)")
    case True
    then have "frame_data_loop p h ys = (p, h, ys)"
      by (intro frame_data_loop_stop) auto
    with j have "frame_data_loop (parser m) (mem m) (xs @ ys) = (p, h, ys)" by simp
    with r l rest have "read_frame_data m (xs @ ys) = Break m' ys"
      by (auto simp: read_frame_data_def Let_def split: if_splits)
    then show ?thesis ..
  next
    case False
    with r l rest have m': "m' = m\<lparr>parser := p, mem := h\<rparr>"
      by (auto simp: read_frame_data_def Let_def split: if_splits)
    have "read_frame_data m (xs @ ys) = read_frame_data m' ys"
      using j unfolding m' by (simp add: read_frame_data_def Let_def split: prod.splits)
    moreover have "state (parser m') = STATE_READ_FRAME_DATA"
      using frame_data_loop_state [OF l] st by (simp add: m')
    ultimately show ?thesis by simp
  qed
qed

lemma feed_loop_Nil: "feed_loop fits m [] = Some (0, m)"
  by (simp add: feed_loop.simps)

lemma feed_loop_done: "state (parser m) = STATE_DONE \<Longrightarrow> feed_loop fits m rest = Some (0, m)"
  by (simp add: feed_loop.simps)

lemma feed_loop_step:
  "rest \<noteq> [] \<Longrightarrow> state (parser m) \<noteq> STATE_DONE \<Longrightarrow> switch fits m rest = Break m' rest' \<Longrightarrow>
   feed_loop fits m rest = feed_loop fits m' rest'"
  by (subst feed_loop.simps) simp

lemma feed_loop_unfold:
  "rest \<noteq> [] \<Longrightarrow> state (parser m) \<noteq> STATE_DONE \<Longrightarrow>
   feed_loop fits m rest =
     (case switch fits m rest of
        Break m' rest' \<Rightarrow> feed_loop fits m' rest'
      | Return r m' \<Rightarrow> Some (r, m'))"
  by (subst feed_loop.simps) simp

lemma switch_framed:
  assumes "framed m" "state (parser m) \<noteq> STATE_DONE" "\<forall>n. fits n"
  shows "\<exists>m' rest'. switch fits m rest = Break m' rest' \<and> framed m'"
proof (cases "state (parser m) = STATE_READ_FRAME_HEADER")
  case True
  obtain p r where l: "frame_header_loop (frame_header_size (parser m)) (parser m) rest = (p, r)"
    by force
  from frame_header_loop_keeps [OF l] True have "state p = STATE_READ_FRAME_HEADER" by simp
  with True l assms(3) show ?thesis
    by (auto simp: switch_def read_frame_header_def framed_def Let_def malloc_def
        split: prod.splits)
next
  case False
  with assms have st: "state (parser m) = STATE_READ_FRAME_DATA" by (auto simp: framed_def)
  obtain p h r where l: "frame_data_loop (parser m) (mem m) rest = (p, h, r)"
    by (metis prod_cases3)
  from frame_data_loop_state [OF l] st have "state p = STATE_READ_FRAME_DATA" by simp
  with st l show ?thesis
    by (auto simp: switch_def read_frame_data_def framed_def Let_def)
qed

lemma switch_progress:
  assumes f: "framed m" and nd: "state (parser m) \<noteq> STATE_DONE"
    and s: "switch fits m rest = Break m' rest'"
  shows "length rest' < length rest \<or> (rest' = rest \<and> (m' = m \<or> rank m' < rank m))"
proof (cases "state (parser m) = STATE_READ_FRAME_HEADER")
  case True
  with s have r: "read_frame_header fits m rest = Break m' rest'" by (simp add: switch_def)
  show ?thesis
  proof (cases "tag_size (parser m) \<le> bytes_processed (parser m)")
    case closed: True
    with r True show ?thesis by (auto simp: read_frame_header_def rank_def)
  next
    case False
    obtain p r' where l: "frame_header_loop (frame_header_size (parser m)) (parser m) rest = (p, r')"
      by force
    from r False l have rest: "r' = rest'"
      by (auto simp: read_frame_header_def Let_def split: if_splits prod.splits)
    from frame_header_loop_progress [OF l]
    show ?thesis
    proof
      assume "length r' < length rest"
      with rest show ?thesis by simp
    next
      assume same: "r' = rest \<and> p = parser m"
      with r False l True have "m' = m \<or> rank m' < rank m"
        by (auto simp: read_frame_header_def Let_def rank_def parse_frame_header_def
            split: if_splits prod.splits)
      with same rest show ?thesis by simp
    qed
  qed
next
  case False
  with f nd have st: "state (parser m) = STATE_READ_FRAME_DATA" by (auto simp: framed_def)
  with s have r: "read_frame_data m rest = Break m' rest'" by (simp add: switch_def)
  obtain p h r' where l: "frame_data_loop (parser m) (mem m) rest = (p, h, r')"
    by (metis prod_cases3)
  from r l have rest: "r' = rest'"
    by (auto simp: read_frame_data_def Let_def split: if_splits)
  from frame_data_loop_progress [OF l]
  show ?thesis
  proof
    assume "length r' < length rest"
    with rest show ?thesis by simp
  next
    assume same: "r' = rest \<and> p = parser m \<and> h = mem m"
    with r l st have "m' = m \<or> rank m' < rank m"
      by (auto simp: read_frame_data_def Let_def rank_def frame_header_size_def
          split: if_splits)
    with same rest show ?thesis by simp
  qed
qed

lemma switch_more:
  assumes "framed m" "state (parser m) \<noteq> STATE_DONE"
    and "switch fits m xs = Break m' xs'" "xs' \<noteq> []"
  shows "switch fits m (xs @ ys) = Break m' (xs' @ ys)"
  using assms
  by (cases "state (parser m)")
    (simp_all add: switch_def framed_def read_frame_header_more read_frame_data_more)

lemma switch_join:
  assumes "framed m" "state (parser m) \<noteq> STATE_DONE"
    and "switch fits m xs = Break m' []" "xs \<noteq> []"
  shows "switch fits m (xs @ ys) = Break m' ys
       \<or> (state (parser m') \<noteq> STATE_DONE \<and> switch fits m (xs @ ys) = switch fits m' ys)"
proof (cases "state (parser m) = STATE_READ_FRAME_HEADER")
  case True
  with assms(3) have "read_frame_header fits m xs = Break m' []" by (simp add: switch_def)
  from read_frame_header_join [OF this assms(4) True, of ys] True
  show ?thesis by (auto simp: switch_def)
next
  case False
  with assms have st: "state (parser m) = STATE_READ_FRAME_DATA" by (auto simp: framed_def)
  with assms(3) have "read_frame_data m xs = Break m' []" by (simp add: switch_def)
  from read_frame_data_join [OF this st, of ys] st
  show ?thesis by (auto simp: switch_def)
qed

lemma feed_loop_split:
  assumes fits: "\<forall>n. fits n"
  shows "framed m \<Longrightarrow>
     feed_loop fits m (xs @ ys)
       = (case feed_loop fits m xs of None \<Rightarrow> None | Some (r, m') \<Rightarrow> feed_loop fits m' ys)"
proof (induction n \<equiv> "4 * length xs + rank m" arbitrary: m xs rule: less_induct)
  case less
  show ?case
  proof (cases "xs = [] \<or> state (parser m) = STATE_DONE")
    case True
    then show ?thesis by (auto simp: feed_loop_Nil feed_loop_done)
  next
    case False
    then have xs: "xs \<noteq> []" and nd: "state (parser m) \<noteq> STATE_DONE" by simp_all
    from switch_framed [OF less.prems nd fits] obtain m' xs' where
      s: "switch fits m xs = Break m' xs'" and f': "framed m'" by blast
    have l1: "feed_loop fits m xs = feed_loop fits m' xs'"
      using xs nd s by (rule feed_loop_step)
    show ?thesis
    proof (cases "xs' = []")
      case True
      with l1 have ret: "feed_loop fits m xs = Some (0, m')" by (simp add: feed_loop_Nil)
      from switch_join [OF less.prems nd s [unfolded True] xs, of ys]
      have "feed_loop fits m (xs @ ys) = feed_loop fits m' ys"
      proof
        assume "switch fits m (xs @ ys) = Break m' ys"
        then show ?thesis using xs nd by (intro feed_loop_step) auto
      next
        assume a: "state (parser m') \<noteq> STATE_DONE \<and> switch fits m (xs @ ys) = switch fits m' ys"
        show ?thesis
        proof (cases "ys = []")
          case True
          with ret show ?thesis by (simp add: feed_loop_Nil)
        next
          case False
          with a xs nd show ?thesis
            by (simp add: feed_loop_unfold [of "xs @ ys" m] feed_loop_unfold [of ys m'])
        qed
      qed
      with ret show ?thesis by simp
    next
      case False
      from switch_more [OF less.prems nd s False, of ys]
      have s2: "switch fits m (xs @ ys) = Break m' (xs' @ ys)" .
      have l2: "feed_loop fits m (xs @ ys) = feed_loop fits m' (xs' @ ys)"
        using s2 xs nd by (intro feed_loop_step) auto
      from switch_progress [OF less.prems nd s]
      consider (stuck) "xs' = xs" "m' = m"
        | (less) "4 * length xs' + rank m' < 4 * length xs + rank m"
      proof -
        have "rank m' \<le> 3" by (simp add: rank_def split: ParserState.splits)
        with switch_progress [OF less.prems nd s] that show thesis by fastforce
      qed
      then show ?thesis
      proof cases
        case stuck
        with s s2 have "feed_loop fits m xs = None" "feed_loop fits m (xs @ ys) = None"
          using xs nd by (auto intro!: feed_loop_stuck)
        then show ?thesis by simp
      next
        case less': less
        from less.hyps [OF less' f'] l1 l2 show ?thesis by simp
      qed
    qed
  qed
qed

lemma feed_loop_framed:
  assumes run: "feed_loop fits m rest = Some (r, m')" and fits: "\<forall>n. fits n" and f: "framed m"
  shows "r = 0 \<and> framed m'"
proof -
  have "(\<forall>n. fits n) \<and> framed m \<longrightarrow> fst (r, m') = 0 \<and> framed (snd (r, m'))"
  proof (rule feed_loop.raw_induct
      [where P = "\<lambda>fits m rest y. (\<forall>n. fits n) \<and> framed m \<longrightarrow> fst y = 0 \<and> framed (snd y)",
       OF _ run])
    fix loop fits m rest and y :: "int \<times> machine"
    assume IH: "\<And>fits m rest y. loop fits m rest = Some y \<Longrightarrow>
        (\<forall>n. fits n) \<and> framed m \<longrightarrow> fst y = 0 \<and> framed (snd y)"
      and body: "(if rest \<noteq> [] \<and> state (parser m) \<noteq> STATE_DONE
          then case switch fits m rest of
                 Break m' rest' \<Rightarrow> loop fits m' rest'
               | Return r m' \<Rightarrow> Some (r, m')
          else Some (0, m)) = Some y"
    show "(\<forall>n. fits n) \<and> framed m \<longrightarrow> fst y = 0 \<and> framed (snd y)"
    proof
      assume a: "(\<forall>n. fits n) \<and> framed m"
      show "fst y = 0 \<and> framed (snd y)"
      proof (cases "rest \<noteq> [] \<and> state (parser m) \<noteq> STATE_DONE")
        case False
        with body a show ?thesis by auto
      next
        case True
        with a obtain m1 rest1 where s: "switch fits m rest = Break m1 rest1" and f1: "framed m1"
          using switch_framed [of m fits rest] by blast
        with body True have "loop fits m1 rest1 = Some y" by simp
        from IH [OF this] a f1 show ?thesis by simp
      qed
    qed
  qed
  with fits f show ?thesis by simp
qed

lemma feed_bytewise_eq_feed:
  assumes fits: "\<forall>n. fits n"
  shows "framed m \<Longrightarrow> feed_bytewise fits 0 m bs = id3_parser_feed fits m bs"
proof (induction bs arbitrary: m)
  case Nil
  then show ?case by (simp add: id3_parser_feed_def feed_loop_Nil)
next
  case (Cons b bs)
  have split: "feed_loop fits m ([b] @ bs)
      = (case feed_loop fits m [b] of None \<Rightarrow> None | Some (r, m') \<Rightarrow> feed_loop fits m' bs)"
    using fits Cons.prems by (rule feed_loop_split)
  show ?case
  proof (cases "feed_loop fits m [b]")
    case None
    with split show ?thesis by (simp add: id3_parser_feed_def)
  next
    case (Some y)
    obtain r m' where y: "y = (r, m')" by force
    from feed_loop_framed [OF Some [unfolded y] fits Cons.prems]
    have r: "r = 0" and f': "framed m'" by simp_all
    from Cons.IH [OF f'] have "feed_bytewise fits 0 m' bs = feed_loop fits m' bs"
      by (simp add: id3_parser_feed_def)
    with split Some y r show ?thesis by (simp add: id3_parser_feed_def)
  qed
qed

lemma feed_loop_Cons:
  "state (parser m) \<noteq> STATE_DONE \<Longrightarrow>
   feed_loop fits m (b # bs) =
     (case switch fits m (b # bs) of
        Break m' rest' \<Rightarrow> feed_loop fits m' rest'
      | Return r m' \<Rightarrow> Some (r, m'))"
  by (rule feed_loop_unfold) simp_all

lemma read_header_loop_stop:
  "\<not> buf_pos p < 10 \<Longrightarrow> read_header_loop p rest = (p, rest)"
  by (cases rest) auto

lemma header_in_one_chunk:
  assumes "\<not> (f AND 0x40 \<noteq> 0 \<and> 3 \<le> v)"
  shows "feed_loop fits (start cb) (signature @ [v, rv, f, s0, s1, s2, s3] @ body)
       = feed_loop fits (after fits (start cb) (signature @ [v, rv, f, s0, s1, s2, s3])) body"
    and "framed (after fits (start cb) (signature @ [v, rv, f, s0, s1, s2, s3]))"
  using assms
  by (auto simp add: after_def id3_parser_feed_def signature_def start_def id3_parser_init_def
      feed_loop_Cons feed_loop_Nil switch_def find_header_def read_header_def Let_def framed_def
      read_header_loop_stop)

lemma header_bytewise:
  assumes "\<not> (f AND 0x40 \<noteq> 0 \<and> 3 \<le> v)"
  shows "id3_parser_feed fits (start cb) signature = Some (0, after fits (start cb) signature)"
    and "feed_bytewise fits 0 (after fits (start cb) signature) ([v, rv, f, s0, s1, s2, s3] @ body)
       = feed_bytewise fits 0 (after fits (start cb) (signature @ [v, rv, f, s0, s1, s2, s3])) body"
  using assms
  by (auto simp add: after_def id3_parser_feed_def signature_def start_def id3_parser_init_def
      feed_loop_Cons feed_loop_Nil switch_def find_header_def read_header_def Let_def
      read_header_loop_stop)

text \<open>
  C1, as the claim states it, fails: fed in one chunk the example tag yields the call
  for \<^verbatim>\<open>TIT2\<close>; fed one byte per call it yields none, since line 44 asks for the three
  bytes of the signature within one chunk (\<^verbatim>\<open>i + 2 < len\<close>).
\<close>

theorem chunk_invariance_fails:
  "map_option (\<lambda>(r, m). calls m) (id3_parser_feed (\<lambda>_. True) (start True) tit2_tag)
     = Some [tit2_call]
   \<and> map_option (\<lambda>(r, m). calls m) (feed_bytewise (\<lambda>_. True) 0 (start True) tit2_tag)
     = Some []"
  by code_simp

text \<open>
  C1, amended. For a byte sequence that begins with the signature and a tag header whose
  flags announce no extended header (bit 6 clear, or a version below 3), and when every
  allocation succeeds: the call that brings the three bytes of the signature returns 0,
  and feeding the whole sequence in one call gives the same result as feeding the
  signature in one call and every further byte in a call of its own: the same status of
  the last call and the same machine, hence the same calls of the callback in the same
  order, or neither run returns.
\<close>

theorem chunk_invariance_after_signature:
  assumes fits: "\<forall>n. fits n" and plain: "\<not> (f AND 0x40 \<noteq> 0 \<and> 3 \<le> v)"
  shows "id3_parser_feed fits (start cb) signature = Some (0, after fits (start cb) signature)
       \<and> id3_parser_feed fits (start cb) (signature @ [v, rv, f, s0, s1, s2, s3] @ body)
           = feed_bytewise fits 0 (after fits (start cb) signature)
               ([v, rv, f, s0, s1, s2, s3] @ body)"
proof -
  let ?m = "after fits (start cb) (signature @ [v, rv, f, s0, s1, s2, s3])"
  have "id3_parser_feed fits (start cb) (signature @ [v, rv, f, s0, s1, s2, s3] @ body)
      = id3_parser_feed fits ?m body"
    using header_in_one_chunk(1) [OF plain] by (simp add: id3_parser_feed_def)
  also have "\<dots> = feed_bytewise fits 0 ?m body"
    using feed_bytewise_eq_feed [OF fits header_in_one_chunk(2) [OF plain]] by simp
  also have "\<dots> = feed_bytewise fits 0 (after fits (start cb) signature)
               ([v, rv, f, s0, s1, s2, s3] @ body)"
    using header_bytewise(2) [OF plain] by simp
  finally show ?thesis using header_bytewise(1) [OF plain] by simp
qed

theorem chunk_invariance_after_signature_witness:
  "id3_parser_feed (\<lambda>_. True) (start True) signature
     = Some (0, after (\<lambda>_. True) (start True) signature)
   \<and> map_option (\<lambda>(r, m). (r, state (parser m), calls m))
       (feed_bytewise (\<lambda>_. True) 0 (after (\<lambda>_. True) (start True) signature)
          ([3, 0, 0, 0, 0, 0, 17] @
           [0x54, 0x49, 0x54, 0x32, 0, 0, 0, 4, 0, 0, 0x61, 0x62, 0x63, 0x64,
            0, 0, 0, 0, 0, 0, 0, 0, 0]))
     = Some (0, STATE_DONE, [tit2_call])"
  using chunk_invariance_after_signature [of "\<lambda>_. True" 0 3 True 0 0 0 0 17
      "[0x54, 0x49, 0x54, 0x32, 0, 0, 0, 4, 0, 0, 0x61, 0x62, 0x63, 0x64,
        0, 0, 0, 0, 0, 0, 0, 0, 0]"]
    tit2_tag_run
  by (simp add: tit2_tag_def)

subsection \<open>The budget of the tag\<close>

lemma word_inc_le: "(x :: 'a::len word) < y \<Longrightarrow> x + 1 \<le> y"
  by (simp add: word_le_nat_alt word_inc_unat) (simp add: word_less_nat_alt)

lemma feed_loop_invariant:
  assumes step: "\<And>m rest. I m \<Longrightarrow> state (parser m) \<noteq> STATE_DONE \<Longrightarrow>
                   I (machine_of (switch fits m rest))"
    and run: "feed_loop fits m rest = Some (r, m')" and init: "I m"
  shows "I m'"
proof -
  have "(\<forall>m rest. I m \<and> state (parser m) \<noteq> STATE_DONE \<longrightarrow> I (machine_of (switch fits m rest)))
        \<and> I m \<longrightarrow> I (snd (r, m'))"
  proof (rule feed_loop.raw_induct
      [where P = "\<lambda>fits m rest y.
         (\<forall>m rest. I m \<and> state (parser m) \<noteq> STATE_DONE \<longrightarrow> I (machine_of (switch fits m rest)))
         \<and> I m \<longrightarrow> I (snd y)", OF _ run])
    fix loop fits m rest and y :: "int \<times> machine"
    assume IH: "\<And>fits m rest y. loop fits m rest = Some y \<Longrightarrow>
        (\<forall>m rest. I m \<and> state (parser m) \<noteq> STATE_DONE \<longrightarrow> I (machine_of (switch fits m rest)))
         \<and> I m \<longrightarrow> I (snd y)"
      and body: "(if rest \<noteq> [] \<and> state (parser m) \<noteq> STATE_DONE
          then case switch fits m rest of
                 Break m' rest' \<Rightarrow> loop fits m' rest'
               | Return r m' \<Rightarrow> Some (r, m')
          else Some (0, m)) = Some y"
    show "(\<forall>m rest. I m \<and> state (parser m) \<noteq> STATE_DONE \<longrightarrow> I (machine_of (switch fits m rest)))
         \<and> I m \<longrightarrow> I (snd y)"
    proof
      assume a: "(\<forall>m rest. I m \<and> state (parser m) \<noteq> STATE_DONE
                    \<longrightarrow> I (machine_of (switch fits m rest))) \<and> I m"
      show "I (snd y)"
      proof (cases "rest \<noteq> [] \<and> state (parser m) \<noteq> STATE_DONE")
        case False
        with body a show ?thesis by auto
      next
        case True
        with a have s: "I (machine_of (switch fits m rest))" by simp
        show ?thesis
        proof (cases "switch fits m rest")
          case (Break m1 rest1)
          with body True have "loop fits m1 rest1 = Some y" by simp
          from IH [OF this] a s Break show ?thesis by simp
        next
          case (Return r1 m1)
          with body True s show ?thesis by auto
        qed
      qed
    qed
  qed
  with step init show ?thesis by simp
qed

lemma read_header_loop_budget:
  "read_header_loop p rest = (p', rest') \<Longrightarrow>
   bytes_processed p' = bytes_processed p \<and> tag_size p' = tag_size p"
  by (induction p rest rule: read_header_loop.induct) (auto split: if_splits)

lemma ext_size_loop_budget:
  "ext_size_loop p rest = (p', rest') \<Longrightarrow> bytes_processed p \<le> tag_size p \<Longrightarrow>
   bytes_processed p' \<le> tag_size p'"
  by (induction p rest rule: ext_size_loop.induct) (auto split: if_splits simp: word_inc_le)

lemma ext_skip_loop_budget:
  "ext_skip_loop p rest = (p', rest') \<Longrightarrow> bytes_processed p \<le> tag_size p \<Longrightarrow>
   bytes_processed p' \<le> tag_size p'"
  by (induction p rest rule: ext_skip_loop.induct) (auto split: if_splits simp: word_inc_le)

lemma frame_header_loop_budget:
  "frame_header_loop hs p rest = (p', rest') \<Longrightarrow> bytes_processed p \<le> tag_size p \<Longrightarrow>
   bytes_processed p' \<le> tag_size p'"
  by (induction hs p rest rule: frame_header_loop.induct) (auto split: if_splits simp: word_inc_le)

lemma frame_data_loop_budget:
  "frame_data_loop p h rest = (p', h', rest') \<Longrightarrow> bytes_processed p \<le> tag_size p \<Longrightarrow>
   bytes_processed p' \<le> tag_size p'"
  by (induction p h rest rule: frame_data_loop.induct) (auto split: if_splits simp: word_inc_le)

lemma switch_within_budget:
  assumes "within_budget m"
  shows "within_budget (machine_of (switch fits m rest))"
proof (cases "state (parser m)")
  case STATE_FIND_HEADER
  with assms show ?thesis
    by (simp add: switch_def find_header_def within_budget_def Let_def)
next
  case STATE_READ_HEADER
  obtain p r where l: "read_header_loop (parser m) rest = (p, r)" by force
  from read_header_loop_budget [OF l] assms STATE_READ_HEADER show ?thesis
    by (simp add: switch_def read_header_def within_budget_def Let_def l)
next
  case STATE_READ_EXT_HEADER
  obtain p rest1 where l1: "ext_size_loop (parser m) rest = (p, rest1)" by force
  define q where "q = (if buf_pos p = 4
               then p\<lparr>ext_header_size :=
                        (if version p = 4 then synchsafe_to_uint32 (buffer p)
                         else bytes_to_uint32 (buffer p)),
                      ext_bytes_read := 4\<rparr>
               else p)"
  obtain p2 rest2 where l2: "ext_skip_loop q rest1 = (p2, rest2)" by force
  from ext_size_loop_budget [OF l1] assms have "bytes_processed q \<le> tag_size q"
    by (simp add: q_def within_budget_def)
  with ext_skip_loop_budget [OF l2] have b: "bytes_processed p2 \<le> tag_size p2" by simp
  have "read_ext_header m rest =
      (if ext_header_size p2 \<le> ext_bytes_read p2
         then Break (m\<lparr>parser := p2\<lparr>state := STATE_READ_FRAME_HEADER, buf_pos := 0\<rparr>\<rparr>) rest2
         else Break (m\<lparr>parser := p2\<rparr>) rest2)"
    using l1 l2 unfolding q_def by (simp add: read_ext_header_def Let_def)
  with b STATE_READ_EXT_HEADER show ?thesis
    by (simp add: switch_def within_budget_def)
next
  case STATE_READ_FRAME_HEADER
  obtain p r where l: "frame_header_loop (frame_header_size (parser m)) (parser m) rest = (p, r)"
    by force
  from frame_header_loop_budget [OF l] assms have "bytes_processed p \<le> tag_size p"
    by (simp add: within_budget_def)
  with assms STATE_READ_FRAME_HEADER show ?thesis
    by (auto simp: switch_def read_frame_header_def within_budget_def Let_def l
        parse_frame_header_def split: prod.splits)
next
  case STATE_READ_FRAME_DATA
  obtain p h r where l: "frame_data_loop (parser m) (mem m) rest = (p, h, r)"
    by (metis prod_cases3)
  from frame_data_loop_budget [OF l] assms have "bytes_processed p \<le> tag_size p"
    by (simp add: within_budget_def)
  with STATE_READ_FRAME_DATA show ?thesis
    by (simp add: switch_def read_frame_data_def within_budget_def Let_def l)
next
  case STATE_DONE
  with assms show ?thesis by (simp add: switch_def)
qed

lemma feed_chunks_within_budget:
  "feed_chunks fits m chunks = Some m' \<Longrightarrow> within_budget m \<Longrightarrow> within_budget m'"
proof (induction chunks arbitrary: m)
  case Nil
  then show ?case by simp
next
  case (Cons c cs)
  then obtain r m1 where f: "id3_parser_feed fits m c = Some (r, m1)"
    and rest: "feed_chunks fits m1 cs = Some m'"
    by (auto split: option.splits)
  have "within_budget m1"
    using switch_within_budget f [unfolded id3_parser_feed_def] Cons.prems(2)
    by (rule feed_loop_invariant)
  with rest show ?case by (rule Cons.IH)
qed

lemma bytes_processed_bounded:
  "feed_chunks fits (start callback) chunks = Some m \<Longrightarrow>
   bytes_processed (parser m) \<le> tag_size (parser m)"
  using feed_chunks_within_budget [of fits "start callback" chunks m]
  by (simp add: within_budget_def start_def id3_parser_init_def)

lemma no_byte_beyond_budget:
  assumes "tag_size (parser m) \<le> bytes_processed (parser m)"
    and "state (parser m) \<in> {STATE_READ_EXT_HEADER, STATE_READ_FRAME_HEADER, STATE_READ_FRAME_DATA}"
  shows "\<exists>m'. switch fits m rest = Break m' rest"
proof -
  have "ext_size_loop (parser m) rest = (parser m, rest)"
    using assms(1) by (intro ext_size_loop_stop) auto
  moreover have "ext_skip_loop q rest = (q, rest)"
    if "tag_size q = tag_size (parser m)" "bytes_processed q = bytes_processed (parser m)" for q
    using assms(1) that by (intro ext_skip_loop_stop) auto
  moreover have "frame_data_loop (parser m) (mem m) rest = (parser m, mem m, rest)"
    using assms(1) by (intro frame_data_loop_stop) auto
  ultimately show ?thesis using assms
    by (auto simp: switch_def read_ext_header_def read_frame_header_def read_frame_data_def Let_def)
qed

lemma oversize_tag_full_run:
  "map_option (\<lambda>(r, m). (r, state (parser m), calls m, bytes_processed (parser m), tag_size (parser m), budget (parser m), wanted (parser m)))
     (id3_parser_feed (\<lambda>_. True) (start True) (oversize_tag @ [0x61, 0x62]))
   = Some (0, STATE_READ_FRAME_DATA, [], 12, 12, 0, 3)"
  by code_simp

text \<open>
  C5. On every machine that calls of \<^verbatim>\<open>id3_parser_feed\<close> reach from a fresh parser
  \<^verbatim>\<open>bytes_processed \<le> tag_size\<close> holds (\<open>bytes_processed_bounded\<close>), and once the two are
  equal no pass of the switch reads a byte of the tag (\<open>no_byte_beyond_budget\<close>). But the
  machine does not always go to \<^verbatim>\<open>STATE_DONE\<close> then: after the tag of size 12 with a frame
  of 5 bytes and two bytes of payload, the call returns with
  \<^verbatim>\<open>bytes_processed = tag_size\<close> in \<^verbatim>\<open>STATE_READ_FRAME_DATA\<close>, and the next call that
  brings a byte does not return.
\<close>

theorem budget_exhausted_mid_frame:
  "\<exists>m. id3_parser_feed (\<lambda>_. True) (start True) (oversize_tag @ [0x61, 0x62]) = Some (0, m)
      \<and> bytes_processed (parser m) = tag_size (parser m)
      \<and> state (parser m) = STATE_READ_FRAME_DATA
      \<and> id3_parser_feed (\<lambda>_. True) m [0] = None"
proof -
  from oversize_tag_full_run obtain m where m: "id3_parser_feed (\<lambda>_. True) (start True) (oversize_tag @ [0x61, 0x62]) = Some (0, m)"
    and f: "state (parser m) = STATE_READ_FRAME_DATA" "bytes_processed (parser m) = 12" "tag_size (parser m) = 12"
     "budget (parser m) = 0" "wanted (parser m) = 3"
    by (auto split: prod.splits)
  from f have "id3_parser_feed (\<lambda>_. True) m [0] = None"
    by (intro feed_beyond_budget) auto
  with m f show ?thesis by auto
qed

end
